theory Spec2Isabelle
  imports Main "HOL-Library.Word"
begin

unbundle bit_operations_syntax

section \<open>Bytes, checksum and hex encoding\<close>

type_synonym byte = "8 word"

text \<open>A Go string is a sequence of bytes; \<open>[]byte(key)\<close> reads them off.\<close>

definition str_bytes :: "string \<Rightarrow> byte list" where
  "str_bytes s = map of_char s"

text \<open>
  \<open>crc32.Checksum(data, crc32.IEEETable)\<close>: the table entry of a byte is the byte
  pushed eight times through the reflected polynomial \<open>0xEDB88320\<close>; the running value
  starts and ends complemented.
\<close>

definition crc_bit :: "32 word \<Rightarrow> 32 word" where
  "crc_bit c = (if bit c 0 then drop_bit 1 c XOR 0xEDB88320 else drop_bit 1 c)"

definition crc_tab :: "byte \<Rightarrow> 32 word" where
  "crc_tab i = (crc_bit ^^ 8) (ucast i)"

definition crc_update :: "32 word \<Rightarrow> byte list \<Rightarrow> 32 word" where
  "crc_update crc p =
     NOT (foldl (\<lambda>c v. crc_tab (ucast c XOR v) XOR drop_bit 8 c) (NOT crc) p)"

definition crc32_checksum :: "byte list \<Rightarrow> 32 word" where
  "crc32_checksum p = crc_update 0 p"

text \<open>\<open>binary.LittleEndian.PutUint32\<close>: least significant byte first.\<close>

definition put_uint32 :: "32 word \<Rightarrow> byte list" where
  "put_uint32 h = [ucast h, ucast (drop_bit 8 h), ucast (drop_bit 16 h), ucast (drop_bit 24 h)]"

definition keyHash :: "string \<Rightarrow> byte list" where
  "keyHash key = put_uint32 (crc32_checksum (str_bytes key))"

text \<open>\<open>hex.EncodeToString\<close>: two lower-case digits per byte, high nibble first.\<close>

definition hexdigit :: "nat \<Rightarrow> char" where
  "hexdigit n = ''0123456789abcdef'' ! (n mod 16)"

definition hex_byte :: "byte \<Rightarrow> string" where
  "hex_byte v = [hexdigit (unat (drop_bit 4 v)), hexdigit (unat (v AND 0x0f))]"

definition hex_encode :: "byte list \<Rightarrow> string" where
  "hex_encode bs = concat (map hex_byte bs)"

section \<open>Paths (package \<open>path/filepath\<close>, slash-separated)\<close>

text \<open>Splitting at every separator; the result is never empty.\<close>

fun split_sep :: "string \<Rightarrow> string list" where
  "split_sep [] = [[]]"
| "split_sep (x # xs) =
     (if x = CHR ''/'' then [] # split_sep xs
      else (x # hd (split_sep xs)) # tl (split_sep xs))"

text \<open>\<open>strings.Join(elems, "/")\<close>.\<close>

fun join_sep :: "string list \<Rightarrow> string" where
  "join_sep [] = []"
| "join_sep [x] = x"
| "join_sep (x # y # ys) = x @ CHR ''/'' # join_sep (y # ys)"

text \<open>
  \<open>filepath.Clean\<close>: empty and \<open>.\<close> elements vanish, an inner \<open>..\<close> removes the
  element before it, a \<open>..\<close> at the start of a rooted path vanishes, and of an
  unrooted one stays; the empty result is \<open>.\<close>.
\<close>

definition clean_step :: "bool \<Rightarrow> string list \<Rightarrow> string \<Rightarrow> string list" where
  "clean_step rooted st c =
     (if c = [] \<or> c = ''.'' then st
      else if c = ''..'' then
        (if st \<noteq> [] \<and> last st \<noteq> ''..'' then butlast st
         else if rooted then st else st @ [c])
      else st @ [c])"

definition is_rooted :: "string \<Rightarrow> bool" where
  "is_rooted p = (case p of [] \<Rightarrow> False | x # _ \<Rightarrow> x = CHR ''/'')"

definition render :: "bool \<Rightarrow> string list \<Rightarrow> string" where
  "render rooted st =
     (if rooted then CHR ''/'' # join_sep st
      else if st = [] then ''.'' else join_sep st)"

definition clean :: "string \<Rightarrow> string" where
  "clean p = render (is_rooted p) (foldl (clean_step (is_rooted p)) [] (split_sep p))"

text \<open>
  \<open>filepath.Join\<close>: leading empty elements are dropped, the rest is joined with the
  separator and cleaned; with no element left the result is empty.
\<close>

definition path_join :: "string list \<Rightarrow> string" where
  "path_join elems =
     (case dropWhile (\<lambda>e. e = []) elems of [] \<Rightarrow> [] | es \<Rightarrow> clean (join_sep es))"

text \<open>\<open>filepath.Base\<close>: the last element, after trailing separators are removed.\<close>

definition path_base :: "string \<Rightarrow> string" where
  "path_base p =
     (if p = [] then ''.''
      else let q = rev (dropWhile (\<lambda>c. c = CHR ''/'') (rev p)) in
        if q = [] then ''/'' else last (split_sep q))"

text \<open>\<open>filepath.Dir\<close>: everything up to the last separator, cleaned.\<close>

definition path_dir :: "string \<Rightarrow> string" where
  "path_dir p = clean (rev (dropWhile (\<lambda>c. c \<noteq> CHR ''/'') (rev p)))"

section \<open>The sharding function\<close>

text \<open>\<open>strings.NewReplacer("/", "-", ":", "_").Replace(key)\<close>, byte by byte.\<close>

definition replace_char :: "char \<Rightarrow> char" where
  "replace_char c = (if c = CHR ''/'' then CHR ''-'' else if c = CHR '':'' then CHR ''_'' else c)"

definition sanitize :: "string \<Rightarrow> string" where
  "sanitize key = map replace_char key"

definition shard_names :: "string \<Rightarrow> string list" where
  "shard_names key =
     (let h = keyHash key in
      [hex_encode (take 1 h), hex_encode (take 1 (drop 1 h)),
       hex_encode (take 1 (drop 2 h)), hex_encode (take 1 (drop 3 h))])"

definition keyPath :: "string \<Rightarrow> string \<Rightarrow> string" where
  "keyPath path key = path_join (path # shard_names key @ [sanitize key])"

section \<open>The entry codec and the clock\<close>

text \<open>
  \<open>time.Now()\<close> is read as the wall clock's Unix nanoseconds (an \<open>int64\<close>), a
  \<open>time.Duration\<close> is a signed count of nanoseconds.
\<close>

type_synonym time_ns = "64 word"
type_synonym duration = "64 word"

text \<open>\<open>binary.LittleEndian.PutUint64\<close> and \<open>binary.LittleEndian.Uint64\<close>.\<close>

definition put_uint64 :: "64 word \<Rightarrow> byte list" where
  "put_uint64 v = map (\<lambda>i. ucast (drop_bit (8 * i) v)) [0..<8]"

definition le_uint64 :: "byte list \<Rightarrow> 64 word" where
  "le_uint64 bs = foldr (\<lambda>b v. ucast b OR push_bit 8 v) (take 8 bs) 0"

text \<open>\<open>uint64(time.Now().Add(expiry).Unix())\<close>: whole seconds, rounded down.\<close>

definition timestamp :: "time_ns \<Rightarrow> duration \<Rightarrow> 64 word" where
  "timestamp now expiry = word_of_int ((sint now + sint expiry) div 1000000000)"

text \<open>
  \<open>time.Unix(int64(x), 0).Before(now)\<close>. \<open>time.Unix\<close> stores the seconds shifted by
  the offset between year 1 and 1970 in an \<open>int64\<close> (so the sum wraps), and
  \<open>Before\<close> compares seconds first and nanoseconds second; the left time has no
  nanoseconds.
\<close>

definition unixToInternal :: int where
  "unixToInternal = 62135596800"

definition expires_before :: "64 word \<Rightarrow> time_ns \<Rightarrow> bool" where
  "expires_before x now =
     (let ts = sint (x + word_of_int unixToInternal);
          us = sint now div 1000000000 + unixToInternal
      in ts < us \<or> (ts = us \<and> 0 < sint now mod 1000000000))"

section \<open>The file system\<close>

text \<open>
  A path names a directory or a regular file. A file carries its bytes and whether it
  can be opened, read and written; \<open>slack\<close> is the spare capacity \<open>ioutil.ReadFile\<close>
  leaves behind the bytes it returns (zero bytes, reachable by re-slicing).
\<close>

datatype node = Dir | File (content: "byte list") (openable: bool) (readable: bool) (writable: bool)

record disk =
  files :: "string \<Rightarrow> node option"
  slack :: nat

record fileCache =
  path :: string

datatype get_result = Found "byte list" | CacheMiss | ReadError | Panic

datatype set_result = Stored | MkdirError | CreateError | WriteError

definition read_file :: "disk \<Rightarrow> string \<Rightarrow> byte list option" where
  "read_file d p =
     (case files d p of
        Some (File b op rd wr) \<Rightarrow> if op \<and> rd then Some b else None
      | _ \<Rightarrow> None)"

definition remove :: "string \<Rightarrow> disk \<Rightarrow> disk" where
  "remove p d = (case files d p of Some (File b op rd wr) \<Rightarrow> d\<lparr>files := (files d)(p := None)\<rparr> | _ \<Rightarrow> d)"

text \<open>The directories \<open>os.MkdirAll\<close> has to find or make: every prefix that ends before a separator, and the path itself.\<close>

definition ancestors :: "string \<Rightarrow> string list" where
  "ancestors p = map (\<lambda>i. take i p) (filter (\<lambda>i. p ! i = CHR ''/'') [1..<length p]) @ [p]"

definition is_file :: "node option \<Rightarrow> bool" where
  "is_file n = (case n of Some (File b op rd wr) \<Rightarrow> True | _ \<Rightarrow> False)"

definition mkdir_all :: "string \<Rightarrow> disk \<Rightarrow> disk option" where
  "mkdir_all p d =
     (if \<exists>a \<in> set (ancestors p). is_file (files d a) then None
      else Some (d\<lparr>files := (\<lambda>q. if q \<in> set (ancestors p) then Some Dir else files d q)\<rparr>))"

text \<open>
  Writing at offset 0 of a file opened without truncation: the bytes behind the written
  ones stay. A write that fails is taken to write nothing.
\<close>

definition write_at0 :: "byte list \<Rightarrow> byte list \<Rightarrow> byte list" where
  "write_at0 new old = new @ drop (length new) old"

section \<open>Get and Set\<close>

definition Get :: "fileCache \<Rightarrow> time_ns \<Rightarrow> string \<Rightarrow> disk \<Rightarrow> get_result \<times> disk" where
  "Get c now key d =
     (let p = keyPath (path c) key in
      case files d p of
        None \<Rightarrow> (CacheMiss, d)
      | Some Dir \<Rightarrow> (CacheMiss, d)
      | Some (File _ _ _ _) \<Rightarrow>
          (case read_file d (clean p) of
             None \<Rightarrow> (ReadError, d)
           | Some b \<Rightarrow>
               if length b + slack d < 8 then (Panic, d)
               else if expires_before (le_uint64 (take 8 (b @ replicate (slack d) 0))) now
                    then (CacheMiss, remove p d)
               else if length b < 8 then (Panic, d)
               else (Found (drop 8 b), d)))"

definition Set :: "fileCache \<Rightarrow> time_ns \<Rightarrow> string \<Rightarrow> byte list \<Rightarrow> duration \<Rightarrow> disk \<Rightarrow> set_result \<times> disk" where
  "Set c now key val expiry d =
     (let p = keyPath (path c) key in
      case mkdir_all (path_dir p) d of
        None \<Rightarrow> (MkdirError, d)
      | Some d1 \<Rightarrow>
          (case files d1 (clean p) of
             Some Dir \<Rightarrow> (CreateError, d1)
           | Some (File old op rd wr) \<Rightarrow>
               if \<not> op then (CreateError, d1)
               else if \<not> wr then (WriteError, d1)
               else (Stored, d1\<lparr>files := (files d1)(clean p \<mapsto>
                       File (write_at0 (put_uint64 (timestamp now expiry) @ val) old) op rd wr)\<rparr>)
           | None \<Rightarrow>
               (Stored, d1\<lparr>files := (files d1)(clean p \<mapsto>
                       File (put_uint64 (timestamp now expiry) @ val) True True True)\<rparr>)))"

section \<open>The vacuum pass\<close>

text \<open>
  \<open>filepath.Walk\<close> hands the callback one entry after the other, each with the error
  of listing or inspecting it, if any, and stops at the first callback that returns an
  error. An entry carries the clock reading of its visit.
\<close>

datatype walk_info = WalkErr | IsDir | IsFile

type_synonym walk_entry = "string \<times> walk_info \<times> time_ns"

text \<open>
  \<open>os.Open\<close> followed by \<open>f.Read(t[:])\<close> on the zeroed array \<open>t\<close>: the number of
  bytes read, whether an error came back (an empty file gives \<open>io.EOF\<close>), and \<open>t\<close>.
  \<open>None\<close> is a failed open.
\<close>

definition open_read8 :: "disk \<Rightarrow> string \<Rightarrow> (nat \<times> bool \<times> byte list) option" where
  "open_read8 d p =
     (case files d p of
        None \<Rightarrow> None
      | Some Dir \<Rightarrow> Some (0, True, replicate 8 0)
      | Some (File b op rd wr) \<Rightarrow>
          if \<not> op then None
          else if \<not> rd \<or> b = [] then Some (0, True, replicate 8 0)
          else Some (min 8 (length b), False, take 8 b @ replicate (8 - length b) 0))"

definition vacuum_file :: "time_ns \<Rightarrow> string \<Rightarrow> disk \<Rightarrow> disk" where
  "vacuum_file now p d =
     (case open_read8 d (clean p) of
        None \<Rightarrow> d
      | Some (n, err, t) \<Rightarrow>
          if err \<and> n \<noteq> 8 then d
          else if \<not> expires_before (le_uint64 t) now then d
          else remove p d)"

text \<open>The callback: the disk after the visit, and whether it returned an error.\<close>

definition walkFn :: "walk_entry \<Rightarrow> disk \<Rightarrow> bool \<times> disk" where
  "walkFn e d =
     (case e of (p, info, now) \<Rightarrow>
        (case info of
           WalkErr \<Rightarrow> (True, d)
         | IsDir \<Rightarrow> (False, d)
         | IsFile \<Rightarrow> (False, vacuum_file now p d)))"

fun vacuum :: "walk_entry list \<Rightarrow> disk \<Rightarrow> disk" where
  "vacuum [] d = d"
| "vacuum (e # es) d = (case walkFn e d of (True, d') \<Rightarrow> d' | (False, d') \<Rightarrow> vacuum es d')"

text \<open>The registry names under which the three operations take their lock.\<close>

definition Get_lock_name :: "string \<Rightarrow> string" where
  "Get_lock_name key = key"

definition Set_lock_name :: "string \<Rightarrow> string" where
  "Set_lock_name key = key"

definition vacuum_lock_name :: "string \<Rightarrow> string" where
  "vacuum_lock_name p = path_base p"

section \<open>The lock registry\<close>

text \<open>
  Handles live in a store and are named by their index; the registry maps a path to the
  handle registered under it. A handle carries its reference count, the path its cleanup
  closure captured, and the state of its read/write lock.
\<close>

record fileLock =
  ref :: int
  cpath :: string
  writer :: bool
  readers :: nat

record pathMutex =
  lock :: "string \<Rightarrow> nat option"
  handles :: "fileLock list"

definition new_pathMutex :: pathMutex where
  "new_pathMutex = \<lparr>lock = Map.empty, handles = []\<rparr>"

definition MutexAt :: "string \<Rightarrow> pathMutex \<Rightarrow> nat \<times> pathMutex" where
  "MutexAt p m =
     (case lock m p of
        Some a \<Rightarrow> (a, m\<lparr>handles := (handles m)[a := (handles m ! a)\<lparr>ref := ref (handles m ! a) + 1\<rparr>]\<rparr>)
      | None \<Rightarrow>
          (length (handles m),
           m\<lparr>handles := handles m @ [\<lparr>ref = 1, cpath = p, writer = False, readers = 0\<rparr>],
             lock := (lock m)(p \<mapsto> length (handles m))\<rparr>))"

definition cleanup :: "nat \<Rightarrow> pathMutex \<Rightarrow> pathMutex" where
  "cleanup a m =
     (let fl = (handles m ! a)\<lparr>ref := ref (handles m ! a) - 1\<rparr>;
          m' = m\<lparr>handles := (handles m)[a := fl]\<rparr>
      in if ref fl = 0 then m'\<lparr>lock := (lock m')(cpath fl := None)\<rparr> else m')"

text \<open>
  The four operations of a handle. \<open>None\<close> is a caller that cannot go on: it blocks on
  a lock that is taken, or the runtime stops it for unlocking a lock that is not held.
\<close>

datatype action = AMutexAt string | ALock nat | AUnlock nat | ARLock nat | ARUnlock nat

definition set_rw :: "nat \<Rightarrow> bool \<Rightarrow> nat \<Rightarrow> pathMutex \<Rightarrow> pathMutex" where
  "set_rw a w r m = m\<lparr>handles := (handles m)[a := (handles m ! a)\<lparr>writer := w, readers := r\<rparr>]\<rparr>"

definition step :: "action \<Rightarrow> pathMutex \<Rightarrow> pathMutex option" where
  "step act m =
     (case act of
        AMutexAt p \<Rightarrow> Some (snd (MutexAt p m))
      | ALock a \<Rightarrow>
          if a < length (handles m) \<and> \<not> writer (handles m ! a) \<and> readers (handles m ! a) = 0
          then Some (set_rw a True 0 m) else None
      | AUnlock a \<Rightarrow>
          if a < length (handles m) \<and> writer (handles m ! a)
          then Some (cleanup a (set_rw a False (readers (handles m ! a)) m)) else None
      | ARLock a \<Rightarrow>
          if a < length (handles m) \<and> \<not> writer (handles m ! a)
          then Some (set_rw a False (readers (handles m ! a) + 1) m) else None
      | ARUnlock a \<Rightarrow>
          if a < length (handles m) \<and> 0 < readers (handles m ! a)
          then Some (cleanup a (set_rw a (writer (handles m ! a)) (readers (handles m ! a) - 1) m))
          else None)"

fun run :: "action list \<Rightarrow> pathMutex \<Rightarrow> pathMutex option" where
  "run [] m = Some m"
| "run (act # acts) m = (case step act m of None \<Rightarrow> None | Some m' \<Rightarrow> run acts m')"

text \<open>The invariant of the registry: registered exactly when referenced, under the captured path.\<close>

definition registered :: "pathMutex \<Rightarrow> nat \<Rightarrow> bool" where
  "registered m a = (\<exists>p. lock m p = Some a)"

definition registry_inv :: "pathMutex \<Rightarrow> bool" where
  "registry_inv m =
     ((\<forall>a < length (handles m). registered m a \<longleftrightarrow> 0 < ref (handles m ! a)) \<and>
      (\<forall>p a. lock m p = Some a \<longrightarrow> a < length (handles m) \<and> cpath (handles m ! a) = p))"

section \<open>Notions used to state the properties\<close>

text \<open>
  A path element that \<open>filepath.Clean\<close> keeps (\<open>comp_ok\<close>), one that it also never
  uses to climb (\<open>plain\<close>), and the shape of the element stack \<open>Clean\<close> builds:
  every \<open>..\<close> sits in front of all other elements, and only in an unrooted path.
\<close>

definition comp_ok :: "string \<Rightarrow> bool" where
  "comp_ok c = (c \<noteq> [] \<and> c \<noteq> ''.'' \<and> CHR ''/'' \<notin> set c)"

definition plain :: "string \<Rightarrow> bool" where
  "plain c = (comp_ok c \<and> c \<noteq> ''..'')"

fun normal_rev :: "bool \<Rightarrow> string list \<Rightarrow> bool" where
  "normal_rev r [] = True"
| "normal_rev r (c # st) =
     (comp_ok c \<and> (c = ''..'' \<longrightarrow> \<not> r \<and> (\<forall>x \<in> set st. x = ''..'')) \<and> normal_rev r st)"

definition normal :: "bool \<Rightarrow> string list \<Rightarrow> bool" where
  "normal r st = normal_rev r (rev st)"

text \<open>The element stack of a base path (an empty base contributes nothing to \<open>filepath.Join\<close>).\<close>

definition stack_of :: "string \<Rightarrow> string list" where
  "stack_of p = (if p = [] then [] else foldl (clean_step (is_rooted p)) [] (split_sep p))"

text \<open>The four-level shard directory of a key, and being a direct entry of a directory.\<close>

definition shard_dir :: "string \<Rightarrow> string \<Rightarrow> string" where
  "shard_dir b key = path_join (b # shard_names key)"

definition inside_dir :: "string \<Rightarrow> string \<Rightarrow> bool" where
  "inside_dir dir p =
     (let name = drop (Suc (length dir)) p in
      take (Suc (length dir)) p = dir @ ''/'' \<and>
      name \<noteq> [] \<and> name \<noteq> ''.'' \<and> name \<noteq> ''..'' \<and> CHR ''/'' \<notin> set name)"

text \<open>
  The on-disk layout in the words of the specification: the base, the four hex names of
  the checksum's bytes, and the sanitized key, each after a separator.
\<close>

definition spec_path :: "string \<Rightarrow> string \<Rightarrow> string" where
  "spec_path b key =
     (let h = put_uint32 (crc32_checksum (str_bytes key)) in
      b @ ''/'' @ hex_byte (h ! 0) @ ''/'' @ hex_byte (h ! 1) @ ''/'' @ hex_byte (h ! 2) @ ''/'' @
      hex_byte (h ! 3) @ ''/'' @ sanitize key)"

text \<open>The same layout below the base.\<close>

definition spec_rel :: "string \<Rightarrow> string" where
  "spec_rel key =
     (let h = put_uint32 (crc32_checksum (str_bytes key)) in
      hex_byte (h ! 0) @ ''/'' @ hex_byte (h ! 1) @ ''/'' @ hex_byte (h ! 2) @ ''/'' @
      hex_byte (h ! 3) @ ''/'' @ sanitize key)"

text \<open>The bytes a path holds before a \<open>Set\<close> (none when it names no file).\<close>

definition old_content :: "disk \<Rightarrow> string \<Rightarrow> byte list" where
  "old_content d p = (case files d p of Some (File b op rd wr) \<Rightarrow> b | _ \<Rightarrow> [])"

text \<open>
  Concrete stores for the examples: a cache on the directory \<open>/c\<close>, one on the same
  directory written with a trailing separator, a disk that holds this directory only,
  one that also holds a regular file with the given bytes, and one with a file that
  cannot be opened beside an expired entry.
\<close>

definition cache0 :: fileCache where
  "cache0 = \<lparr>path = ''/c''\<rparr>"

definition cache_slash :: fileCache where
  "cache_slash = \<lparr>path = ''/c/''\<rparr>"

definition disk0 :: disk where
  "disk0 = \<lparr>files = [''/c'' \<mapsto> Dir], slack = 512\<rparr>"

definition disk_with :: "string \<Rightarrow> byte list \<Rightarrow> disk" where
  "disk_with p b = \<lparr>files = [''/c'' \<mapsto> Dir, p \<mapsto> File b True True True], slack = 512\<rparr>"

definition disk_bad :: disk where
  "disk_bad =
     \<lparr>files = [''/c'' \<mapsto> Dir,
               ''/c/x'' \<mapsto> File [1, 2, 3, 4, 5, 6, 7, 8, 9] False True True,
               ''/c/y'' \<mapsto> File [5, 0, 0, 0, 0, 0, 0, 0, 7] True True True],
      slack = 512\<rparr>"

text \<open>
  The files the vacuum pass cannot take a header from: \<open>os.Open\<close> fails, or the read
  returns an error (an empty file gives \<open>io.EOF\<close>).
\<close>

definition unreadable :: "disk \<Rightarrow> string \<Rightarrow> bool" where
  "unreadable d p =
     (case files d (clean p) of
        None \<Rightarrow> True
      | Some Dir \<Rightarrow> True
      | Some (File b op rd wr) \<Rightarrow> \<not> op \<or> \<not> rd \<or> b = [])"

text \<open>
  The entry in the words of the specification: the expiry's Unix seconds as eight
  little-endian bytes, then the payload.
\<close>

definition spec_entry :: "int \<Rightarrow> byte list \<Rightarrow> byte list" where
  "spec_entry secs payload = map (\<lambda>i. of_int (secs div 256 ^ i mod 256)) [0..<8] @ payload"

text \<open>
  The handles a run hands out (one for each \<open>MutexAt\<close>) and the handles it releases
  (one for each \<open>Unlock\<close> and \<open>RUnlock\<close>), and the reference count of a handle.
\<close>

definition acquired_by :: "action \<Rightarrow> pathMutex \<Rightarrow> nat list" where
  "acquired_by act m = (case act of AMutexAt p \<Rightarrow> [fst (MutexAt p m)] | _ \<Rightarrow> [])"

definition released_by :: "action \<Rightarrow> nat list" where
  "released_by act = (case act of AUnlock a \<Rightarrow> [a] | ARUnlock a \<Rightarrow> [a] | _ \<Rightarrow> [])"

fun returned :: "action list \<Rightarrow> pathMutex \<Rightarrow> nat list" where
  "returned [] m = []"
| "returned (act # acts) m =
     (case step act m of None \<Rightarrow> [] | Some m' \<Rightarrow> acquired_by act m @ returned acts m')"

definition released :: "action list \<Rightarrow> nat list" where
  "released acts = concat (map released_by acts)"

definition ref_of :: "pathMutex \<Rightarrow> nat \<Rightarrow> int" where
  "ref_of m a = (if a < length (handles m) then ref (handles m ! a) else 0)"

section \<open>Little-endian words\<close>

lemma bit_byte_high: "8 \<le> n \<Longrightarrow> \<not> bit (b :: byte) n"
  by (auto dest: bit_imp_le_length)

lemma bit_le_fold:
  "n < 64 \<Longrightarrow>
   bit (foldr (\<lambda>b v. ucast b OR push_bit 8 v) bs (0 :: 64 word)) n =
     (n div 8 < length bs \<and> bit (bs ! (n div 8) :: byte) (n mod 8))"
proof (induction bs arbitrary: n)
  case Nil
  then show ?case by simp
next
  case (Cons b bs)
  show ?case
  proof (cases "n < 8")
    case True
    then show ?thesis
      using Cons.prems by (simp add: bit_or_iff bit_push_bit_iff bit_ucast_iff)
  next
    case False
    then have n8: "8 \<le> n" by simp
    have d: "(n - 8) div 8 = n div 8 - 1" "(n - 8) mod 8 = n mod 8" "1 \<le> n div 8"
      using n8 by (simp_all add: le_div_geq le_mod_geq)
    have "n - 8 < 64" using Cons.prems by simp
    note ih = Cons.IH [OF this]
    show ?thesis
      using n8 Cons.prems d
      by (auto simp add: bit_or_iff bit_push_bit_iff bit_ucast_iff bit_byte_high ih nth_Cons'; arith)
  qed
qed

lemma length_put_uint64: "length (put_uint64 v) = 8"
  by (simp add: put_uint64_def)

lemma le_uint64_put_uint64: "le_uint64 (put_uint64 v) = v"
proof (rule bit_eqI)
  fix n assume "possible_bit TYPE(64 word) n"
  then have n: "n < 64" by (simp add: possible_bit_def)
  then have k: "n div 8 < 8" by simp
  have "bit (le_uint64 (put_uint64 v)) n = bit (put_uint64 v ! (n div 8)) (n mod 8)"
    unfolding le_uint64_def using n k by (simp add: bit_le_fold length_put_uint64)
  also have "\<dots> = bit v (8 * (n div 8) + n mod 8)"
    proof -
    have "n mod 8 < 8" by simp
    then show ?thesis
      using k by (simp add: put_uint64_def bit_ucast_iff bit_drop_bit_eq add.commute del: mod_less_divisor)
  qed
  finally show "bit (le_uint64 (put_uint64 v)) n = bit v n" by simp
qed

section \<open>Splitting, joining and cleaning paths\<close>

lemma split_sep_ne [simp]: "split_sep s \<noteq> []"
  by (induction s) auto

lemma split_sep_nosep: "CHR ''/'' \<notin> set s \<Longrightarrow> split_sep s = [s]"
  by (induction s) auto

lemma split_sep_append: "split_sep (a @ CHR ''/'' # b) = split_sep a @ split_sep b"
proof (induction a)
  case Nil
  then show ?case by simp
next
  case (Cons x a)
  then show ?case by (cases "split_sep a") auto
qed

lemma split_sep_comps: "c \<in> set (split_sep s) \<Longrightarrow> CHR ''/'' \<notin> set c"
proof (induction s arbitrary: c)
  case Nil
  then show ?case by simp
next
  case (Cons x s)
  then show ?case
    by (cases "split_sep s") (auto split: if_splits)
qed

lemma join_sep_Cons: "ys \<noteq> [] \<Longrightarrow> join_sep (x # ys) = x @ CHR ''/'' # join_sep ys"
  by (cases ys) auto

lemma join_sep_append:
  "xs \<noteq> [] \<Longrightarrow> ys \<noteq> [] \<Longrightarrow> join_sep (xs @ ys) = join_sep xs @ CHR ''/'' # join_sep ys"
proof (induction xs rule: join_sep.induct)
  case 1
  then show ?case by simp
next
  case (2 x)
  then show ?case by (simp add: join_sep_Cons)
next
  case (3 x y ys)
  then show ?case by simp
qed

lemma split_join:
  "xs \<noteq> [] \<Longrightarrow> \<forall>x \<in> set xs. CHR ''/'' \<notin> set x \<Longrightarrow> split_sep (join_sep xs) = xs"
proof (induction xs rule: join_sep.induct)
  case 1
  then show ?case by simp
next
  case (2 x)
  then show ?case by (simp add: split_sep_nosep)
next
  case (3 x y ys)
  then show ?case by (simp add: split_sep_append split_sep_nosep)
qed

lemma normal_Nil [simp]: "normal r []"
  by (simp add: normal_def)

lemma normal_snoc:
  "normal r (st @ [c]) =
     (comp_ok c \<and> (c = ''..'' \<longrightarrow> \<not> r \<and> (\<forall>x \<in> set st. x = ''..'')) \<and> normal r st)"
  by (simp add: normal_def)

lemma normal_butlast: "normal r st \<Longrightarrow> normal r (butlast st)"
  by (cases st rule: rev_cases) (simp_all add: normal_snoc)

lemma normal_comps: "normal r st \<Longrightarrow> c \<in> set st \<Longrightarrow> comp_ok c"
  by (induction st rule: rev_induct) (auto simp: normal_snoc)

lemma normal_last_dots:
  "normal r st \<Longrightarrow> st \<noteq> [] \<Longrightarrow> last st = ''..'' \<Longrightarrow> \<not> r \<and> (\<forall>x \<in> set st. x = ''..'')"
  by (cases st rule: rev_cases) (auto simp: normal_snoc)

lemma normal_clean_step:
  assumes "normal r st" "CHR ''/'' \<notin> set c"
  shows "normal r (clean_step r st c)"
proof -
  consider "c = [] \<or> c = ''.''" | "c = ''..''" | "plain c"
    using assms(2) by (auto simp: plain_def comp_ok_def)
  then show ?thesis
  proof cases
    case 1
    then show ?thesis using assms by (auto simp: clean_step_def)
  next
    case 2
    show ?thesis
    proof (cases "st \<noteq> [] \<and> last st \<noteq> ''..''")
      case True
      then show ?thesis using assms 2 by (simp add: clean_step_def normal_butlast)
    next
      case False
      then have "st = [] \<or> (\<forall>x \<in> set st. x = ''..'')"
        using normal_last_dots [OF assms(1)] by blast
      then have "\<forall>x \<in> set st. x = ''..''" by auto
      then show ?thesis
        using assms 2 False by (auto simp: clean_step_def normal_snoc comp_ok_def)
    qed
  next
    case 3
    then show ?thesis
      using assms by (auto simp: clean_step_def normal_snoc plain_def comp_ok_def)
  qed
qed

lemma normal_foldl:
  "normal r st \<Longrightarrow> \<forall>c \<in> set cs. CHR ''/'' \<notin> set c \<Longrightarrow> normal r (foldl (clean_step r) st cs)"
  by (induction cs arbitrary: st) (simp_all add: normal_clean_step)

lemma normal_stack: "normal r (foldl (clean_step r) [] (split_sep p))"
  by (rule normal_foldl) (auto dest: split_sep_comps)

lemma clean_step_normal_snoc:
  assumes "normal r (st @ [c])"
  shows "clean_step r st c = st @ [c]"
proof -
  have c: "comp_ok c" and d: "c = ''..'' \<Longrightarrow> \<not> r \<and> (\<forall>x \<in> set st. x = ''..'')"
    using assms by (simp_all add: normal_snoc)
  show ?thesis
  proof (cases "c = ''..''")
    case True
    then have "st = [] \<or> last st = ''..''" using d last_in_set [of st] by blast
    then show ?thesis using True d by (auto simp: clean_step_def)
  next
    case False
    then show ?thesis using c by (auto simp: clean_step_def comp_ok_def)
  qed
qed

lemma foldl_normal: "normal r st \<Longrightarrow> foldl (clean_step r) [] st = st"
proof (induction st rule: rev_induct)
  case Nil
  then show ?case by simp
next
  case (snoc c st)
  then have "normal r st" by (simp add: normal_snoc)
  with snoc show ?case by (simp add: clean_step_normal_snoc)
qed

lemma foldl_plain:
  "\<forall>c \<in> set cs. plain c \<Longrightarrow> foldl (clean_step r) st cs = st @ cs"
  by (induction cs arbitrary: st) (auto simp: clean_step_def plain_def comp_ok_def)

lemma clean_step_empty [simp]: "clean_step r st [] = st"
  by (simp add: clean_step_def)

lemma is_rooted_join:
  "st \<noteq> [] \<Longrightarrow> \<forall>c \<in> set st. comp_ok c \<Longrightarrow> \<not> is_rooted (join_sep st)"
proof -
  assume a: "st \<noteq> []" "\<forall>c \<in> set st. comp_ok c"
  then obtain x xs where st: "st = x # xs" by (cases st) auto
  with a obtain y ys where x: "x = y # ys" "y \<noteq> CHR ''/''"
    by (cases x) (auto simp: comp_ok_def)
  show ?thesis
    unfolding st x by (cases xs) (simp_all add: is_rooted_def x)
qed

lemma is_rooted_render: "normal r st \<Longrightarrow> is_rooted (render r st) = r"
  using is_rooted_join [of st] normal_comps [of r st]
  by (auto simp: render_def is_rooted_def)

lemma comps_nosep: "normal r st \<Longrightarrow> \<forall>x \<in> set st. CHR ''/'' \<notin> set x"
  by (auto dest: normal_comps simp: comp_ok_def)

lemma stack_render:
  assumes "normal r st"
  shows "foldl (clean_step r) [] (split_sep (render r st)) = st"
proof (cases "st = []")
  case True
  then show ?thesis by (auto simp: render_def clean_step_def)
next
  case False
  then have "split_sep (join_sep st) = st"
    using comps_nosep [OF assms] by (simp add: split_join)
  then show ?thesis
    using False foldl_normal [OF assms] by (cases r) (simp_all add: render_def)
qed

lemma clean_render: "normal r st \<Longrightarrow> clean (render r st) = render r st"
  by (simp add: clean_def is_rooted_render stack_render)

lemma clean_idem: "clean (clean p) = clean p"
  unfolding clean_def [of p] by (rule clean_render) (rule normal_stack)


section \<open>The shape of a key's path\<close>

lemma hexdigit_in: "hexdigit n \<in> set ''0123456789abcdef''"
  unfolding hexdigit_def by (rule nth_mem) simp

lemma hexdigit_not_sep: "hexdigit n \<noteq> CHR ''/''"
  using hexdigit_in [of n] by auto

lemma hexdigit_not_dot: "hexdigit n \<noteq> CHR ''.''"
  using hexdigit_in [of n] by auto

lemma plain_hex_byte: "plain (hex_byte v)"
  by (simp add: plain_def comp_ok_def hex_byte_def hexdigit_not_sep hexdigit_not_dot
      hexdigit_not_sep [THEN not_sym])

lemma shard_names_eq:
  "shard_names key =
     (let h = crc32_checksum (str_bytes key) in
      [hex_byte (ucast h), hex_byte (ucast (drop_bit 8 h)),
       hex_byte (ucast (drop_bit 16 h)), hex_byte (ucast (drop_bit 24 h))])"
  by (simp add: shard_names_def keyHash_def put_uint32_def hex_encode_def Let_def)

lemma shard_names_plain: "\<forall>c \<in> set (shard_names key). plain c"
  by (simp add: shard_names_eq Let_def plain_hex_byte)

lemma shard_names_ne: "shard_names key \<noteq> []"
  by (simp add: shard_names_eq Let_def)

lemma length_shard_names: "length (shard_names key) = 4"
  by (simp add: shard_names_eq Let_def)

lemma replace_char_not_sep: "replace_char c \<noteq> CHR ''/''"
  by (simp add: replace_char_def)

lemma replace_char_dot: "replace_char c = CHR ''.'' \<longleftrightarrow> c = CHR ''.''"
  by (simp add: replace_char_def)

lemma sanitize_no_sep: "CHR ''/'' \<notin> set (sanitize key)"
  by (auto simp: sanitize_def replace_char_not_sep [THEN not_sym])

lemma sanitize_dot: "sanitize key = ''.'' \<longleftrightarrow> key = ''.''"
  by (auto simp: sanitize_def replace_char_dot map_eq_Cons_conv)

lemma sanitize_dotdot: "sanitize key = ''..'' \<longleftrightarrow> key = ''..''"
  by (auto simp: sanitize_def replace_char_dot map_eq_Cons_conv)

lemma plain_sanitize: "plain (sanitize key) \<longleftrightarrow> key \<noteq> [] \<and> key \<noteq> ''.'' \<and> key \<noteq> ''..''"
  using sanitize_no_sep [of key]
  by (auto simp: plain_def comp_ok_def sanitize_dot sanitize_dotdot) (simp_all add: sanitize_def)

lemma render_snoc: "st \<noteq> [] \<Longrightarrow> render r (st @ [k]) = render r st @ CHR ''/'' # k"
  by (simp add: render_def join_sep_append)

lemma plain_nosep: "\<forall>c \<in> set cs. plain c \<Longrightarrow> \<forall>c \<in> set cs. CHR ''/'' \<notin> set c"
  by (auto simp: plain_def comp_ok_def)

lemma plain_comp_ok: "\<forall>c \<in> set cs. plain c \<Longrightarrow> \<forall>c \<in> set cs. comp_ok c"
  by (auto simp: plain_def)

lemma clean_join_plain:
  assumes "\<forall>c \<in> set cs. plain c" "cs \<noteq> []"
  shows "clean (join_sep cs) = render False cs"
proof -
  have "\<not> is_rooted (join_sep cs)"
    using assms by (simp add: is_rooted_join plain_comp_ok)
  moreover have "split_sep (join_sep cs) = cs"
    using assms by (simp add: split_join plain_nosep)
  ultimately show ?thesis
    using assms by (simp add: clean_def foldl_plain)
qed

lemma is_rooted_append: "p \<noteq> [] \<Longrightarrow> is_rooted (p @ q) = is_rooted p"
  by (cases p) (simp_all add: is_rooted_def)

lemma clean_prefix_plain:
  assumes "\<forall>c \<in> set cs. plain c" "cs \<noteq> []" "p \<noteq> []"
  shows "clean (p @ CHR ''/'' # join_sep cs) =
           render (is_rooted p) (foldl (clean_step (is_rooted p)) [] (split_sep p) @ cs)"
proof -
  have "split_sep (p @ CHR ''/'' # join_sep cs) = split_sep p @ cs"
    using assms by (simp add: split_sep_append split_join plain_nosep)
  then show ?thesis
    using assms by (simp add: clean_def is_rooted_append foldl_plain)
qed

lemma path_join_plain:
  assumes "\<forall>c \<in> set cs. plain c" "cs \<noteq> []"
  shows "path_join (b # cs) = render (is_rooted b) (stack_of b @ cs)"
proof (cases "b = []")
  case True
  obtain c cs' where cs: "cs = c # cs'" using assms(2) by (cases cs) auto
  then have "c \<noteq> []" using assms(1) by (auto simp: plain_def comp_ok_def)
  then have "path_join (b # cs) = clean (join_sep cs)"
    using True cs by (simp add: path_join_def)
  then show ?thesis
    using True assms by (simp add: clean_join_plain stack_of_def is_rooted_def)
next
  case False
  then have "path_join (b # cs) = clean (b @ CHR ''/'' # join_sep cs)"
    using assms(2) by (simp add: path_join_def join_sep_Cons)
  then show ?thesis
    using False assms by (simp add: clean_prefix_plain stack_of_def)
qed

lemma path_join_snoc:
  assumes "\<forall>c \<in> set cs. plain c" "cs \<noteq> []" "plain k"
  shows "path_join (b # cs @ [k]) = path_join (b # cs) @ CHR ''/'' # k"
proof -
  have "path_join (b # (cs @ [k])) = render (is_rooted b) (stack_of b @ (cs @ [k]))"
    using assms by (intro path_join_plain) auto
  then show ?thesis
    using assms by (simp add: path_join_plain render_snoc [of "stack_of b @ cs", simplified])
qed

lemma keyPath_plain:
  assumes "key \<noteq> []" "key \<noteq> ''.''" "key \<noteq> ''..''"
  shows "keyPath b key = path_join (b # shard_names key) @ CHR ''/'' # sanitize key"
  unfolding keyPath_def
  using assms by (simp add: path_join_snoc shard_names_plain shard_names_ne plain_sanitize)

lemma clean_path_join: "clean (path_join es) = path_join es \<or> path_join es = []"
  by (auto simp: path_join_def clean_idem split: list.splits)

lemma keyPath_clean: "clean (keyPath b key) = keyPath b key"
proof -
  have "dropWhile (\<lambda>e. e = []) (b # shard_names key @ [sanitize key]) \<noteq> []"
    using shard_names_plain [of key] shard_names_ne [of key]
    by (cases "shard_names key") (auto simp: plain_def comp_ok_def)
  then show ?thesis
    by (auto simp: keyPath_def path_join_def clean_idem split: list.splits)
qed

section \<open>The expiry comparison\<close>

lemma sint_of_int_64:
  "- (2 ^ 63) \<le> x \<Longrightarrow> x < 2 ^ 63 \<Longrightarrow> sint (word_of_int x :: 64 word) = x"
  by (simp add: sint_sbintrunc' signed_take_bit_int_eq_self)

lemma sint_range_64: "- (2 ^ 63) \<le> sint (w :: 64 word) \<and> sint w < 2 ^ 63"
  using sint_ge [of w] sint_lt [of w] by simp

lemma expires_before_iff:
  assumes "sint x + unixToInternal < 2 ^ 63"
  shows "expires_before x now \<longleftrightarrow> sint x * 1000000000 < sint now"
proof -
  have r: "- (2 ^ 63) \<le> sint x + unixToInternal"
    using sint_range_64 [of x] by (simp add: unixToInternal_def)
  have "x + word_of_int unixToInternal = word_of_int (sint x + unixToInternal)"
    by simp
  then have ts: "sint (x + word_of_int unixToInternal) = sint x + unixToInternal"
    using r assms by (simp only: sint_of_int_64)
  define q m where "q = sint now div 1000000000" and "m = sint now mod 1000000000"
  have n: "sint now = q * 1000000000 + m" "0 \<le> m" "m < 1000000000"
    by (simp_all add: q_def m_def)
  have "expires_before x now \<longleftrightarrow> sint x < q \<or> (sint x = q \<and> 0 < m)"
    by (simp add: expires_before_def Let_def ts q_def m_def)
  also have "\<dots> \<longleftrightarrow> sint x * 1000000000 < sint now"
    using n by arith
  finally show ?thesis .
qed

section \<open>Get on a stored file\<close>

lemma Get_file:
  assumes "files d (keyPath (path c) key) = Some (File b op rd wr)"
  shows "Get c now key d =
     (if \<not> (op \<and> rd) then (ReadError, d)
      else if length b + slack d < 8 then (Panic, d)
      else if expires_before (le_uint64 (take 8 (b @ replicate (slack d) 0))) now
           then (CacheMiss, remove (keyPath (path c) key) d)
      else if length b < 8 then (Panic, d)
      else (Found (drop 8 b), d))"
  using assms by (simp add: Get_def keyPath_clean read_file_def Let_def)

lemma short_header: "le_uint64 (replicate 7 255 @ [0]) = 0xFFFFFFFFFFFFFF"
  by code_simp

lemma short_header_sint: "sint (0xFFFFFFFFFFFFFF :: 64 word) = 72057594037927935"
  by simp

lemma short_header_fresh: "\<not> expires_before (0xFFFFFFFFFFFFFF) now"
proof -
  have "sint now < 2 ^ 63" using sint_range_64 [of now] by simp
  then have "\<not> 72057594037927935 * 1000000000 < sint now" by simp
  then show ?thesis
    by (subst expires_before_iff) (simp_all add: unixToInternal_def)
qed

lemma short_header0: "le_uint64 (replicate 7 255) = 0xFFFFFFFFFFFFFF"
  by code_simp

lemma Get_file_panic:
  assumes "files d (keyPath (path c) key) = Some (File b True True wr)"
    and "length b < 8"
    and "\<not> expires_before (le_uint64 (take 8 (b @ replicate (slack d) 0))) now"
  shows "Get c now key d = (Panic, d)"
  unfolding Get_file [OF assms(1)] using assms(2,3)
  by (simp only: simp_thms if_True if_False if_cancel)

text \<open>
  Claim C2. A stored file shorter than the 8-byte header is not turned into a miss.
  For a file of seven bytes \<open>0xff\<close>, under every key, clock reading and spare
  capacity of the read buffer, \<open>Get\<close> panics: either \<open>b[:8]\<close> is out of range, or the
  zero-extended header is an expiry far in the future and \<open>b[8:]\<close> is out of range.
\<close>

theorem Get_short_file_panics:
  assumes "files d (keyPath (path c) key) = Some (File (replicate 7 255) True True wr)"
  shows "Get c now key d = (Panic, d)"
proof (rule Get_file_panic [OF assms])
  show "length (replicate 7 (255 :: byte)) < 8" by simp
  have "take 8 (replicate 7 255 @ replicate (slack d) 0) = replicate 7 255 @ [0::byte]
      \<or> take 8 (replicate 7 255 @ replicate (slack d) 0) = replicate 7 (255 :: byte)"
    by (cases "slack d") simp_all
  then show "\<not> expires_before (le_uint64 (take 8 (replicate 7 255 @ replicate (slack d) 0))) now"
    by (auto simp only: short_header short_header0 short_header_fresh)
qed

theorem Get_short_file_panics_witness:
  "Get \<lparr>path = ''/c''\<rparr> 1000000001 ''k''
     \<lparr>files = [keyPath ''/c'' ''k'' \<mapsto> File (replicate 7 255) True True True], slack = 512\<rparr>
   = (Panic, \<lparr>files = [keyPath ''/c'' ''k'' \<mapsto> File (replicate 7 255) True True True], slack = 512\<rparr>)"
  by (rule Get_short_file_panics [where wr = True]) simp

section \<open>Set and the following Get\<close>

lemma write_at0_Nil [simp]: "write_at0 new [] = new"
  by (simp add: write_at0_def)

lemma Set_StoredD:
  assumes "Set c now key val ttl d = (Stored, d')"
  shows "\<exists>rd. files d' (keyPath (path c) key) =
           Some (File (write_at0 (put_uint64 (timestamp now ttl) @ val)
                        (old_content d (keyPath (path c) key))) True rd True)"
    and "slack d' = slack d"
proof -
  let ?p = "keyPath (path c) key"
  obtain d1 where m: "mkdir_all (path_dir ?p) d = Some d1"
    using assms by (auto simp: Set_def Let_def split: option.splits)
  have d1: "files d1 ?p = Some Dir \<or> files d1 ?p = files d ?p" "slack d1 = slack d"
    using m by (auto simp: mkdir_all_def split: if_splits)
  have s: "(case files d1 ?p of
             Some Dir \<Rightarrow> (CreateError, d1)
           | Some (File old op rd wr) \<Rightarrow>
               if \<not> op then (CreateError, d1)
               else if \<not> wr then (WriteError, d1)
               else (Stored, d1\<lparr>files := (files d1)(?p \<mapsto>
                       File (write_at0 (put_uint64 (timestamp now ttl) @ val) old) op rd wr)\<rparr>)
           | None \<Rightarrow>
               (Stored, d1\<lparr>files := (files d1)(?p \<mapsto>
                       File (put_uint64 (timestamp now ttl) @ val) True True True)\<rparr>)) = (Stored, d')"
    using assms m unfolding Set_def Let_def keyPath_clean by simp
  show "\<exists>rd. files d' ?p =
           Some (File (write_at0 (put_uint64 (timestamp now ttl) @ val) (old_content d ?p)) True rd True)"
    using s d1(1)
    by (auto simp: old_content_def split: option.splits node.splits if_splits)
  show "slack d' = slack d"
    using s d1(2)
    by (auto split: option.splits node.splits if_splits)
qed

lemma Set_result_ttl: "fst (Set c now key val ttl d) = fst (Set c now key val ttl' d)"
  by (simp add: Set_def Let_def split: option.splits node.splits)

lemma take8_entry: "take 8 (write_at0 (put_uint64 x @ val) old @ zs) = put_uint64 x"
  by (simp add: write_at0_def length_put_uint64)

lemma length_entry: "8 \<le> length (write_at0 (put_uint64 x @ val) old)"
  by (simp add: write_at0_def length_put_uint64)

lemma sint_timestamp: "sint (timestamp now ttl) = (sint now + sint ttl) div 1000000000"
proof -
  have "- (2 ^ 64) \<le> sint now + sint ttl" "sint now + sint ttl < 2 ^ 64"
    using sint_range_64 [of now] sint_range_64 [of ttl] by simp_all
  then have "- (2 ^ 63) \<le> (sint now + sint ttl) div 1000000000"
    "(sint now + sint ttl) div 1000000000 < 2 ^ 63"
    by simp_all
  then show ?thesis
    unfolding timestamp_def by (rule sint_of_int_64)
qed

lemma timestamp_representable: "sint (timestamp now ttl) + unixToInternal < 2 ^ 63"
proof -
  have "sint now + sint ttl < 2 ^ 64"
    using sint_range_64 [of now] sint_range_64 [of ttl] by simp
  then have "(sint now + sint ttl) div 1000000000 < 18446744074" by simp
  then show ?thesis by (simp add: sint_timestamp unixToInternal_def)
qed

lemma expires_before_timestamp:
  "expires_before (timestamp t1 ttl) t2 \<longleftrightarrow> (sint t1 + sint ttl) div 1000000000 * 1000000000 < sint t2"
  by (simp add: expires_before_iff [OF timestamp_representable] sint_timestamp)

lemma Get_entry:
  assumes "files d (keyPath (path c) key) = Some (File b True True wr)" and "8 \<le> length b"
  shows "Get c now key d =
     (if expires_before (le_uint64 (take 8 b)) now
      then (CacheMiss, remove (keyPath (path c) key) d)
      else (Found (drop 8 b), d))"
proof -
  have "take 8 (b @ replicate (slack d) 0) = take 8 b"
    using assms(2) by simp
  moreover have "\<not> length b + slack d < 8" "\<not> length b < 8"
    using assms(2) by simp_all
  ultimately show ?thesis
    unfolding Get_file [OF assms(1)] by (simp only: simp_thms if_True if_False)
qed

lemma files_remove: "is_file (files d p) \<Longrightarrow> files (remove p d) p = None"
  by (auto simp: remove_def is_file_def split: option.splits node.splits)

lemma vacuum_file_entry:
  assumes "files d (keyPath b0 key) = Some (File b True True wr)" and "8 \<le> length b"
  shows "vacuum_file now (keyPath b0 key) d =
     (if expires_before (le_uint64 (take 8 b)) now then remove (keyPath b0 key) d else d)"
proof -
  have "b \<noteq> []" using assms(2) by auto
  then have "open_read8 d (clean (keyPath b0 key)) = Some (8, False, take 8 b)"
    using assms by (simp add: open_read8_def keyPath_clean)
  then show ?thesis
    by (simp add: vacuum_file_def)
qed

text \<open>
  Claim C10, amended. \<open>Set\<close> does not look at the sign of its ttl: whether it succeeds
  does not depend on the ttl. After a successful \<open>Set\<close> with a zero or negative ttl the
  file starts with the expiry's seconds, which lie at or before the clock reading of
  \<open>Set\<close>. A following \<open>Get\<close> of the file, if it can be read back, reports a miss and
  leaves no file at the key's path exactly when the expiry second lies strictly before
  the clock reading of \<open>Get\<close>: at every later reading, and at the same reading unless
  the ttl is zero and the clock stands on a full second. Otherwise \<open>Get\<close> serves the
  entry and keeps the file.
\<close>

theorem Set_nonpositive_ttl_then_miss:
  assumes "Set c t1 key val ttl d = (Stored, d')"
    and "sint ttl \<le> 0"
    and "read_file d' (keyPath (path c) key) \<noteq> None"
  shows "fst (Set c t1 key val ttl' d) = Stored
    \<and> map_option (\<lambda>n. le_uint64 (take 8 (content n))) (files d' (keyPath (path c) key))
        = Some (timestamp t1 ttl)
    \<and> sint (timestamp t1 ttl) * 1000000000 \<le> sint t1
    \<and> Get c t2 key d' =
        (if sint (timestamp t1 ttl) * 1000000000 < sint t2
         then (CacheMiss, remove (keyPath (path c) key) d')
         else (Found (val @ drop (8 + length val) (old_content d (keyPath (path c) key))), d'))
    \<and> files (remove (keyPath (path c) key) d') (keyPath (path c) key) = None
    \<and> (sint t1 < sint t2
         \<or> (sint t1 = sint t2 \<and> (sint ttl < 0 \<or> sint t1 mod 1000000000 \<noteq> 0))
        \<longrightarrow> Get c t2 key d' = (CacheMiss, remove (keyPath (path c) key) d'))"
proof -
  let ?p = "keyPath (path c) key"
  let ?b = "write_at0 (put_uint64 (timestamp t1 ttl) @ val) (old_content d ?p)"
  let ?s = "(sint t1 + sint ttl) div 1000000000"
  obtain rd where "files d' ?p = Some (File ?b True rd True)"
    using Set_StoredD(1) [OF assms(1)] by blast
  then have f: "files d' ?p = Some (File ?b True True True)"
    using assms(3) by (cases rd) (auto simp: read_file_def)
  have h: "le_uint64 (take 8 ?b) = timestamp t1 ttl"
    using take8_entry [of "timestamp t1 ttl" val "old_content d ?p" "[]"]
    by (simp add: le_uint64_put_uint64)
  have dr: "drop 8 ?b = val @ drop (8 + length val) (old_content d ?p)"
    by (simp add: write_at0_def length_put_uint64)
  have st: "sint (timestamp t1 ttl) = ?s"
    by (rule sint_timestamp)
  have le: "?s * 1000000000 \<le> sint t1 + sint ttl"
    by simp
  have a: "fst (Set c t1 key val ttl' d) = Stored"
    using Set_result_ttl [of c t1 key val ttl' d ttl] assms(1) by simp
  have b: "map_option (\<lambda>n. le_uint64 (take 8 (content n))) (files d' ?p) = Some (timestamp t1 ttl)"
    by (simp add: f h)
  have c: "sint (timestamp t1 ttl) * 1000000000 \<le> sint t1"
    unfolding st using le assms(2) by linarith
  have g: "Get c t2 key d' =
        (if sint (timestamp t1 ttl) * 1000000000 < sint t2
         then (CacheMiss, remove ?p d')
         else (Found (val @ drop (8 + length val) (old_content d ?p)), d'))"
    unfolding Get_entry [OF f length_entry] h dr
    by (simp add: expires_before_iff [OF timestamp_representable])
  have r: "files (remove ?p d') ?p = None"
    by (rule files_remove) (simp add: f is_file_def)
  have e: "sint (timestamp t1 ttl) * 1000000000 < sint t2"
    if later: "sint t1 < sint t2 \<or> (sint t1 = sint t2 \<and> (sint ttl < 0 \<or> sint t1 mod 1000000000 \<noteq> 0))"
  proof -
    consider "sint t1 < sint t2" | "sint t1 = sint t2" "sint ttl < 0"
      | "sint t1 = sint t2" "sint ttl = 0" "sint t1 mod 1000000000 \<noteq> 0"
      using later assms(2) by fastforce
    then show ?thesis
    proof cases
      case 1
      then show ?thesis using c by linarith
    next
      case 2
      then show ?thesis unfolding st using le by linarith
    next
      case 3
      have "sint t1 = sint t1 div 1000000000 * 1000000000 + sint t1 mod 1000000000"
        by simp
      moreover have "0 \<le> sint t1 mod 1000000000" by simp
      ultimately have "sint t1 div 1000000000 * 1000000000 < sint t1"
        using 3(3) by linarith
      then show ?thesis unfolding st using 3(1,2) by simp
    qed
  qed
  show ?thesis
    using a b c g r e by simp
qed

theorem Set_nonpositive_ttl_then_miss_witness:
  "fst (Set cache0 5000000000 ''k'' [1] (-7) disk0) = Stored
   \<and> Get cache0 5000000001 ''k'' (snd (Set cache0 5000000000 ''k'' [1] 0 disk0))
       = (CacheMiss, remove (keyPath (path cache0) ''k'') (snd (Set cache0 5000000000 ''k'' [1] 0 disk0)))
   \<and> files (remove (keyPath (path cache0) ''k'') (snd (Set cache0 5000000000 ''k'' [1] 0 disk0)))
        (keyPath (path cache0) ''k'') = None"
proof -
  have "fst (Set cache0 5000000000 ''k'' [1] 0 disk0) = Stored"
    by code_simp
  then have s: "Set cache0 5000000000 ''k'' [1] 0 disk0
      = (Stored, snd (Set cache0 5000000000 ''k'' [1] 0 disk0))"
    by (simp add: prod_eq_iff)
  have r: "read_file (snd (Set cache0 5000000000 ''k'' [1] 0 disk0)) (keyPath (path cache0) ''k'') \<noteq> None"
    by code_simp
  have t: "sint (0 :: duration) \<le> 0"
    by simp
  have l: "sint (5000000000 :: time_ns) < sint (5000000001 :: time_ns)"
    by simp
  show ?thesis
    using Set_nonpositive_ttl_then_miss [OF s t r, of "-7" 5000000001] l by blast
qed

text \<open>
  With a ttl of zero, on a full second, a \<open>Get\<close> at the clock reading of \<open>Set\<close> serves
  the entry and keeps the file.
\<close>

theorem zero_ttl_same_instant_counterexample:
  "fst (Set cache0 5000000000 ''k'' [1] 0 disk0) = Stored
   \<and> fst (Get cache0 5000000000 ''k'' (snd (Set cache0 5000000000 ''k'' [1] 0 disk0))) = Found [1]
   \<and> files (snd (Get cache0 5000000000 ''k'' (snd (Set cache0 5000000000 ''k'' [1] 0 disk0))))
        (keyPath ''/c'' ''k'') = Some (File [5, 0, 0, 0, 0, 0, 0, 0, 1] True True True)"
  by code_simp

text \<open>
  Claim C6. \<open>Set\<close> followed by \<open>Get\<close>, with the stored expiry not yet passed, does not
  return the payload from every prior state: what \<open>Get\<close> returns is the payload followed
  by whatever the file held behind the new entry's length.
\<close>

theorem Set_Get_keeps_old_tail:
  assumes "Set c t1 key val ttl d = (Stored, d')"
    and "read_file d' (keyPath (path c) key) \<noteq> None"
    and "\<not> expires_before (timestamp t1 ttl) t2"
  shows "Get c t2 key d' =
    (Found (val @ drop (8 + length val) (old_content d (keyPath (path c) key))), d')"
proof -
  let ?p = "keyPath (path c) key"
  let ?b = "write_at0 (put_uint64 (timestamp t1 ttl) @ val) (old_content d ?p)"
  obtain rd where "files d' ?p = Some (File ?b True rd True)"
    using Set_StoredD(1) [OF assms(1)] by blast
  then have f: "files d' ?p = Some (File ?b True True True)"
    using assms(2) by (cases rd) (auto simp: read_file_def)
  have h: "le_uint64 (take 8 ?b) = timestamp t1 ttl"
    using take8_entry [of "timestamp t1 ttl" val "old_content d ?p" "[]"]
    by (simp add: le_uint64_put_uint64)
  have "drop 8 ?b = val @ drop (8 + length val) (old_content d ?p)"
    by (simp add: write_at0_def length_put_uint64)
  then show ?thesis
    by (simp add: Get_entry [OF f length_entry] h assms(3))
qed

theorem Set_Get_keeps_old_tail_witness:
  "Get cache0 1000000001 ''k''
     (snd (Set cache0 1000000000 ''k'' [9] 5000000000
        (disk_with (keyPath ''/c'' ''k'') [6, 0, 0, 0, 0, 0, 0, 0, 1, 2, 3, 4])))
   = (Found [9, 2, 3, 4],
      snd (Set cache0 1000000000 ''k'' [9] 5000000000
        (disk_with (keyPath ''/c'' ''k'') [6, 0, 0, 0, 0, 0, 0, 0, 1, 2, 3, 4])))"
proof -
  let ?d = "disk_with (keyPath ''/c'' ''k'') [6, 0, 0, 0, 0, 0, 0, 0, 1, 2, 3, 4]"
  have "fst (Set cache0 1000000000 ''k'' [9] 5000000000 ?d) = Stored"
    by code_simp
  then have s: "Set cache0 1000000000 ''k'' [9] 5000000000 ?d
      = (Stored, snd (Set cache0 1000000000 ''k'' [9] 5000000000 ?d))"
    by (simp add: prod_eq_iff)
  have r: "read_file (snd (Set cache0 1000000000 ''k'' [9] 5000000000 ?d)) (keyPath (path cache0) ''k'') \<noteq> None"
    by code_simp
  have e: "\<not> expires_before (timestamp 1000000000 5000000000) 1000000001"
    by code_simp
  have o: "old_content ?d (keyPath (path cache0) ''k'') = [6, 0, 0, 0, 0, 0, 0, 0, 1, 2, 3, 4]"
    by (simp add: old_content_def disk_with_def cache0_def)
  show ?thesis
    using Set_Get_keeps_old_tail [OF s r e] by (simp add: o)
qed

text \<open>
  Claim C1. Two \<open>Set\<close>s on one key, the second with the shorter payload, leave the tail
  of the first payload in the file, and \<open>Get\<close> returns it behind the second payload.
\<close>

theorem overwrite_leaves_residue:
  "fst (Set cache0 1000000000 ''k'' [1, 2, 3, 4] 5000000000 disk0) = Stored
   \<and> fst (Set cache0 1000000000 ''k'' [9] 5000000000
            (snd (Set cache0 1000000000 ''k'' [1, 2, 3, 4] 5000000000 disk0))) = Stored
   \<and> fst (Get cache0 1000000001 ''k''
            (snd (Set cache0 1000000000 ''k'' [9] 5000000000
               (snd (Set cache0 1000000000 ''k'' [1, 2, 3, 4] 5000000000 disk0)))))
       = Found [9, 2, 3, 4]
   \<and> files (snd (Set cache0 1000000000 ''k'' [9] 5000000000
               (snd (Set cache0 1000000000 ''k'' [1, 2, 3, 4] 5000000000 disk0))))
         (keyPath ''/c'' ''k'')
       = Some (File [6, 0, 0, 0, 0, 0, 0, 0, 9, 2, 3, 4] True True True)"
  by code_simp

section \<open>Expiry on read and in the vacuum pass\<close>

text \<open>
  Claim C5, amended. The comparison is strict, at the clock's nanosecond resolution: an
  entry (a readable file with a full header, whose expiry second \<open>time.Unix\<close> can
  represent) is deleted by \<open>Get\<close>, which reports a miss, and by the vacuum pass that visits
  it, exactly when its expiry lies strictly before the clock reading. At the instant of
  its expiry the entry is still served and kept.
\<close>

theorem expiry_is_strict:
  assumes "files d (keyPath (path c) key) = Some (File b True True wr)"
    and "8 \<le> length b"
    and "sint (le_uint64 (take 8 b)) + unixToInternal < 2 ^ 63"
  shows "Get c now key d =
      (if sint (le_uint64 (take 8 b)) * 1000000000 < sint now
       then (CacheMiss, remove (keyPath (path c) key) d) else (Found (drop 8 b), d))
    \<and> vacuum [(keyPath (path c) key, IsFile, now)] d =
      (if sint (le_uint64 (take 8 b)) * 1000000000 < sint now
       then remove (keyPath (path c) key) d else d)
    \<and> files (remove (keyPath (path c) key) d) (keyPath (path c) key) = None"
proof -
  have "files (remove (keyPath (path c) key) d) (keyPath (path c) key) = None"
    by (rule files_remove) (simp add: assms(1) is_file_def)
  then show ?thesis
    by (simp add: Get_entry [OF assms(1,2)] vacuum_file_entry [OF assms(1,2)]
        expires_before_iff [OF assms(3)] walkFn_def)
qed

theorem expiry_is_strict_witness:
  "Get cache0 5000000001 ''k'' (disk_with (keyPath ''/c'' ''k'') [5, 0, 0, 0, 0, 0, 0, 0, 7]) =
      (CacheMiss, remove (keyPath ''/c'' ''k'') (disk_with (keyPath ''/c'' ''k'') [5, 0, 0, 0, 0, 0, 0, 0, 7]))
    \<and> vacuum [(keyPath ''/c'' ''k'', IsFile, 5000000001)] (disk_with (keyPath ''/c'' ''k'') [5, 0, 0, 0, 0, 0, 0, 0, 7]) =
      remove (keyPath ''/c'' ''k'') (disk_with (keyPath ''/c'' ''k'') [5, 0, 0, 0, 0, 0, 0, 0, 7])
    \<and> files (remove (keyPath ''/c'' ''k'') (disk_with (keyPath ''/c'' ''k'') [5, 0, 0, 0, 0, 0, 0, 0, 7]))
        (keyPath ''/c'' ''k'') = None"
proof -
  let ?b = "[5, 0, 0, 0, 0, 0, 0, 0, 7] :: byte list"
  have f: "files (disk_with (keyPath ''/c'' ''k'') ?b) (keyPath (path cache0) ''k'') = Some (File ?b True True True)"
    by (simp add: disk_with_def cache0_def)
  have l: "8 \<le> length ?b" by simp
  have x: "le_uint64 (take 8 ?b) = 5" by code_simp
  have r: "sint (le_uint64 (take 8 ?b)) + unixToInternal < 2 ^ 63"
    unfolding x by (simp add: unixToInternal_def)
  show ?thesis
    using expiry_is_strict [OF f l r, of 5000000001] unfolding x
    by (simp add: cache0_def)
qed

text \<open>An entry whose expiry is the clock reading itself is served and kept.\<close>

theorem expiry_boundary_counterexample:
  "fst (Get cache0 5000000000 ''k'' (disk_with (keyPath ''/c'' ''k'') [5, 0, 0, 0, 0, 0, 0, 0, 7])) = Found [7]
   \<and> files (snd (Get cache0 5000000000 ''k'' (disk_with (keyPath ''/c'' ''k'') [5, 0, 0, 0, 0, 0, 0, 0, 7])))
        (keyPath ''/c'' ''k'') = Some (File [5, 0, 0, 0, 0, 0, 0, 0, 7] True True True)
   \<and> files (vacuum [(keyPath ''/c'' ''k'', IsFile, 5000000000)]
               (disk_with (keyPath ''/c'' ''k'') [5, 0, 0, 0, 0, 0, 0, 0, 7]))
        (keyPath ''/c'' ''k'') = Some (File [5, 0, 0, 0, 0, 0, 0, 0, 7] True True True)"
  by code_simp

section \<open>Failures during the vacuum pass\<close>

lemma vacuum_file_unreadable: "unreadable d p \<Longrightarrow> vacuum_file now p d = d"
  by (auto simp: unreadable_def vacuum_file_def open_read8_def split: option.splits node.splits)

text \<open>
  Claim C3, amended. A file that cannot be opened, or whose read returns an error (a
  failed read, or the end of an empty file), is skipped and left as it is, and the pass
  goes on with the entries after it. An entry that the walk reports with an error is
  left as it is too, but ends the pass: no entry after it is visited.
\<close>

theorem vacuum_failures:
  "(unreadable d p \<longrightarrow> vacuum ((p, IsFile, now) # es) d = vacuum es d)
   \<and> vacuum ((p, WalkErr, now) # es) d = d"
  by (simp add: walkFn_def vacuum_file_unreadable)

theorem vacuum_failures_witness:
  "unreadable disk_bad ''/c/x''
   \<and> vacuum [(''/c/x'', IsFile, 5000000001), (''/c/y'', IsFile, 5000000001)] disk_bad
       = vacuum [(''/c/y'', IsFile, 5000000001)] disk_bad
   \<and> files (vacuum [(''/c/x'', IsFile, 5000000001), (''/c/y'', IsFile, 5000000001)] disk_bad) ''/c/x''
       = Some (File [1, 2, 3, 4, 5, 6, 7, 8, 9] False True True)
   \<and> files disk_bad ''/c/y'' = Some (File [5, 0, 0, 0, 0, 0, 0, 0, 7] True True True)
   \<and> files (vacuum [(''/c/x'', IsFile, 5000000001), (''/c/y'', IsFile, 5000000001)] disk_bad) ''/c/y''
       = None
   \<and> vacuum [(''/c/x'', WalkErr, 5000000001), (''/c/y'', IsFile, 5000000001)] disk_bad = disk_bad"
proof -
  have u: "unreadable disk_bad ''/c/x''"
    by code_simp
  have x: "files (vacuum [(''/c/y'', IsFile, 5000000001)] disk_bad) ''/c/x''
       = Some (File [1, 2, 3, 4, 5, 6, 7, 8, 9] False True True)"
    by code_simp
  have y: "files (vacuum [(''/c/y'', IsFile, 5000000001)] disk_bad) ''/c/y'' = None"
    by code_simp
  have z: "files disk_bad ''/c/y'' = Some (File [5, 0, 0, 0, 0, 0, 0, 0, 7] True True True)"
    by code_simp
  show ?thesis
    using vacuum_failures [of disk_bad "''/c/x''" 5000000001 "[(''/c/y'', IsFile, 5000000001)]"] u x y z
    by simp
qed

text \<open>
  The pass that visits an expired entry deletes it; the same pass with a walk error
  before that entry leaves it.
\<close>

theorem walk_error_aborts_counterexample:
  "files (vacuum [(keyPath ''/c'' ''k'', IsFile, 5000000001)]
            (disk_with (keyPath ''/c'' ''k'') [5, 0, 0, 0, 0, 0, 0, 0, 7]))
      (keyPath ''/c'' ''k'') = None
   \<and> files (vacuum [(''/c/00'', WalkErr, 5000000001), (keyPath ''/c'' ''k'', IsFile, 5000000001)]
            (disk_with (keyPath ''/c'' ''k'') [5, 0, 0, 0, 0, 0, 0, 0, 7]))
      (keyPath ''/c'' ''k'') = Some (File [5, 0, 0, 0, 0, 0, 0, 0, 7] True True True)"
  by code_simp

text \<open>
  A file of one to seven bytes is read without an error, so the test of the read passes
  and the zero-extended bytes are taken for an expiry: here the file is deleted.
\<close>

lemma vacuum_short_file_deleted:
  "files (vacuum [(''/c/x'', IsFile, 5000000001)] (disk_with ''/c/x'' [1, 0, 0])) ''/c/x'' = None"
  by code_simp

section \<open>The last element and the directory of a key's path\<close>

lemma path_base_child:
  assumes "k \<noteq> []" "CHR ''/'' \<notin> set k"
  shows "path_base (x @ CHR ''/'' # k) = k"
proof -
  have "hd (rev k) \<noteq> CHR ''/''"
    using assms by (metis hd_rev last_in_set)
  then have "dropWhile (\<lambda>c. c = CHR ''/'') (rev k @ CHR ''/'' # rev x) = rev k @ CHR ''/'' # rev x"
    using assms(1) by (cases "rev k") auto
  then have "rev (dropWhile (\<lambda>c. c = CHR ''/'') (rev (x @ CHR ''/'' # k))) = x @ CHR ''/'' # k"
    by simp
  moreover have "last (split_sep (x @ CHR ''/'' # k)) = k"
    using assms by (simp add: split_sep_append split_sep_nosep)
  ultimately show ?thesis
    by (simp add: path_base_def Let_def del: rev_append rev.simps)
qed

lemma clean_trailing_sep: "x \<noteq> [] \<Longrightarrow> clean (x @ ''/'') = clean x"
  by (simp add: clean_def split_sep_append is_rooted_append)

lemma path_dir_child:
  assumes "CHR ''/'' \<notin> set k" "x \<noteq> []"
  shows "path_dir (x @ CHR ''/'' # k) = clean x"
proof -
  have "dropWhile (\<lambda>c. c \<noteq> CHR ''/'') (rev k @ CHR ''/'' # rev x) = CHR ''/'' # rev x"
    using assms(1) by (induction k rule: rev_induct) auto
  then have "rev (dropWhile (\<lambda>c. c \<noteq> CHR ''/'') (rev (x @ CHR ''/'' # k))) = x @ ''/''"
    by simp
  then show ?thesis
    using assms(2) unfolding path_dir_def by (simp only: clean_trailing_sep simp_thms)
qed

lemma shard_dir_eq: "shard_dir b key = render (is_rooted b) (stack_of b @ shard_names key)"
  unfolding shard_dir_def by (rule path_join_plain) (simp_all add: shard_names_plain shard_names_ne)

lemma render_ne: "normal r st \<Longrightarrow> render r st \<noteq> []"
  using normal_comps [of r st]
  by (cases st rule: join_sep.cases) (auto simp: render_def comp_ok_def)

lemma normal_append_plain:
  "normal r st \<Longrightarrow> \<forall>c \<in> set cs. plain c \<Longrightarrow> normal r (st @ cs)"
proof (induction cs rule: rev_induct)
  case Nil
  then show ?case by simp
next
  case (snoc c cs)
  then have "normal r (st @ cs)" "plain c" by simp_all
  then show ?case
    using normal_snoc [of r "st @ cs" c] by (simp add: plain_def)
qed

lemma normal_stack_of: "normal (is_rooted b) (stack_of b)"
  by (simp add: stack_of_def normal_stack)

lemma shard_dir_ne: "shard_dir b key \<noteq> []"
  by (simp add: shard_dir_eq render_ne normal_append_plain normal_stack_of shard_names_plain)

lemma clean_shard_dir: "clean (shard_dir b key) = shard_dir b key"
  unfolding shard_dir_eq
  by (rule clean_render) (simp add: normal_append_plain normal_stack_of shard_names_plain)

lemma keyPath_child:
  assumes "key \<noteq> []" "key \<noteq> ''.''" "key \<noteq> ''..''"
  shows "keyPath b key = shard_dir b key @ CHR ''/'' # sanitize key"
  using keyPath_plain [OF assms] by (simp add: shard_dir_def)

text \<open>
  Claim C7, amended. For every key other than the empty key, \<open>.\<close> and \<open>..\<close>, the path is
  the shard directory, a separator and the sanitized key, which is not empty, is
  neither \<open>.\<close> nor \<open>..\<close> and holds no separator: the file is a direct entry of the
  four-level shard directory, and that directory is what \<open>filepath.Dir\<close> gives back.
\<close>

theorem keyPath_inside_shard_dir:
  assumes "key \<noteq> []" "key \<noteq> ''.''" "key \<noteq> ''..''"
  shows "inside_dir (shard_dir b key) (keyPath b key)
    \<and> keyPath b key = shard_dir b key @ ''/'' @ sanitize key
    \<and> path_dir (keyPath b key) = shard_dir b key"
proof -
  have p: "plain (sanitize key)"
    using assms by (simp add: plain_sanitize)
  have "path_dir (shard_dir b key @ CHR ''/'' # sanitize key) = shard_dir b key"
    by (simp add: path_dir_child sanitize_no_sep shard_dir_ne clean_shard_dir)
  then show ?thesis
    using p by (simp add: keyPath_child [OF assms] inside_dir_def plain_def comp_ok_def)
qed

theorem keyPath_inside_shard_dir_witness:
  "inside_dir (shard_dir ''/cache'' ''a/../b'') (keyPath ''/cache'' ''a/../b'')
    \<and> keyPath ''/cache'' ''a/../b'' = shard_dir ''/cache'' ''a/../b'' @ ''/'' @ sanitize ''a/../b''
    \<and> path_dir (keyPath ''/cache'' ''a/../b'') = shard_dir ''/cache'' ''a/../b''"
  by (rule keyPath_inside_shard_dir) simp_all

text \<open>The key \<open>..\<close> is mapped to the third-level directory, outside its shard directory.\<close>

theorem keyPath_dotdot_counterexample:
  "keyPath ''/cache'' ''..'' = ''/cache/1c/16/08''
   \<and> shard_dir ''/cache'' ''..'' = ''/cache/1c/16/08/96''
   \<and> \<not> inside_dir (shard_dir ''/cache'' ''..'') (keyPath ''/cache'' ''..'')"
  by code_simp

section \<open>The lock names\<close>

lemma vacuum_lock_name_keyPath:
  assumes "key \<noteq> []" "key \<noteq> ''.''" "key \<noteq> ''..''"
  shows "vacuum_lock_name (keyPath b key) = sanitize key"
proof -
  have "sanitize key \<noteq> []" using assms(1) by (simp add: sanitize_def)
  then show ?thesis
    by (simp add: vacuum_lock_name_def keyPath_child [OF assms] path_base_child sanitize_no_sep)
qed

text \<open>
  Claim C4. For the key of the repository's own test, under every base directory, the
  vacuum pass asks the registry for the sanitized file name while \<open>Get\<close> and \<open>Set\<close> ask
  for the key itself; with the handle of \<open>Get\<close> registered, the vacuum pass is given
  another handle.
\<close>

theorem vacuum_locks_other_name:
  "vacuum_lock_name (keyPath b ''GETlocalhost:8080/test/path'') = ''GETlocalhost_8080-test-path''
   \<and> Get_lock_name ''GETlocalhost:8080/test/path'' = ''GETlocalhost:8080/test/path''
   \<and> Set_lock_name ''GETlocalhost:8080/test/path'' = ''GETlocalhost:8080/test/path''
   \<and> fst (MutexAt (vacuum_lock_name (keyPath b ''GETlocalhost:8080/test/path''))
             (snd (MutexAt (Get_lock_name ''GETlocalhost:8080/test/path'') new_pathMutex)))
       \<noteq> fst (MutexAt (Get_lock_name ''GETlocalhost:8080/test/path'') new_pathMutex)"
proof -
  have v: "vacuum_lock_name (keyPath b ''GETlocalhost:8080/test/path'') = ''GETlocalhost_8080-test-path''"
    by (subst vacuum_lock_name_keyPath) (simp_all add: sanitize_def replace_char_def)
  show ?thesis
    unfolding v by (simp add: Get_lock_name_def Set_lock_name_def MutexAt_def new_pathMutex_def)
qed

section \<open>The on-disk layout\<close>

lemma put_uint64_spec:
  "put_uint64 (word_of_int s) = map (\<lambda>i. of_int (s div 256 ^ i mod 256)) [0..<8]"
proof -
  have "ucast (drop_bit (8 * i) (word_of_int s :: 64 word)) = (of_int (s div 256 ^ i mod 256) :: byte)"
    if "i < 8" for i
  proof (rule bit_eqI)
    fix n assume "possible_bit TYPE(byte) n"
    then have n: "n < 8" by (simp add: possible_bit_def)
    have p: "(256 :: int) ^ i = 2 ^ (8 * i)" by (simp add: power_mult)
    have "s div 2 ^ (8 * i) mod 256 = take_bit 8 (drop_bit (8 * i) s)"
      by (simp add: take_bit_eq_mod drop_bit_eq_div)
    then have r: "bit (of_int (s div 256 ^ i mod 256) :: byte) n = bit s (8 * i + n)"
      using n by (simp add: p bit_of_int_iff bit_take_bit_iff bit_drop_bit_eq)
    have "8 * i + n < 64" using that n by simp
    then have "bit (ucast (drop_bit (8 * i) (word_of_int s :: 64 word)) :: byte) n = bit s (8 * i + n)"
      using n by (simp add: bit_ucast_iff bit_drop_bit_eq bit_word_of_int_iff)
    with r show "bit (ucast (drop_bit (8 * i) (word_of_int s :: 64 word)) :: byte) n
        = bit (of_int (s div 256 ^ i mod 256) :: byte) n"
      by simp
  qed
  then show ?thesis
    by (simp add: put_uint64_def)
qed

lemma spec_path_eq:
  "spec_path b key = b @ CHR ''/'' # join_sep (shard_names key) @ CHR ''/'' # sanitize key"
  by (simp add: spec_path_def shard_names_eq put_uint32_def Let_def)

lemma render_append:
  "st \<noteq> [] \<Longrightarrow> cs \<noteq> [] \<Longrightarrow> render r (st @ cs) = render r st @ CHR ''/'' # join_sep cs"
  by (simp add: render_def join_sep_append)

lemma spec_rel_eq: "spec_rel key = join_sep (shard_names key) @ CHR ''/'' # sanitize key"
  by (simp add: spec_rel_def shard_names_eq put_uint32_def Let_def)

lemma clean_Nil: "clean [] = ''.''"
  by (simp add: clean_def is_rooted_def render_def)

lemma render_not_special:
  assumes "normal r st" "st \<noteq> []"
  shows "render r st \<noteq> ''/'' \<and> render r st \<noteq> ''.''"
proof -
  have ok: "\<forall>c \<in> set st. comp_ok c"
    using normal_comps [OF assms(1)] by blast
  have ne: "join_sep st \<noteq> []"
    using ok assms(2) by (cases st rule: join_sep.cases) (auto simp: comp_ok_def)
  have nr: "\<not> is_rooted (join_sep st)"
    using is_rooted_join [OF assms(2) ok] .
  have nd: "join_sep st \<noteq> ''.''"
  proof (cases st rule: join_sep.cases)
    case 1
    then show ?thesis using assms(2) by simp
  next
    case (2 x)
    then show ?thesis using ok by (simp add: comp_ok_def)
  next
    case (3 x y ys)
    then have "x \<noteq> []" using ok by (simp add: comp_ok_def)
    then show ?thesis using 3 by (cases x) auto
  qed
  show ?thesis
    using ne nr nd assms(2) by (auto simp: render_def is_rooted_def)
qed

lemma shard_dir_cases:
  "shard_dir b key =
     (if clean b = ''/'' then CHR ''/'' # join_sep (shard_names key)
      else if clean b = ''.'' then join_sep (shard_names key)
      else clean b @ CHR ''/'' # join_sep (shard_names key))"
proof (cases "b = []")
  case True
  then show ?thesis
    using shard_names_ne [of key]
    by (simp add: shard_dir_eq clean_Nil stack_of_def is_rooted_def render_def)
next
  case False
  let ?r = "is_rooted b"
  let ?S = "foldl (clean_step ?r) [] (split_sep b)"
  have st: "stack_of b = ?S" using False by (simp add: stack_of_def)
  have cb: "clean b = render ?r ?S" by (simp add: clean_def)
  show ?thesis
  proof (cases "?S = []")
    case True
    then show ?thesis
      using shard_names_ne [of key] by (cases ?r) (simp_all add: shard_dir_eq st cb render_def)
  next
    case False
    have "render ?r ?S \<noteq> ''/'' \<and> render ?r ?S \<noteq> ''.''"
      using render_not_special [OF normal_stack False] .
    moreover have "render ?r (?S @ shard_names key) = render ?r ?S @ CHR ''/'' # join_sep (shard_names key)"
      using False shard_names_ne [of key] by (rule render_append)
    ultimately show ?thesis
      by (simp add: shard_dir_eq st cb)
  qed
qed

lemma keyPath_clean_spec_path:
  assumes "b \<noteq> []"
  shows "keyPath b key = clean (spec_path b key)"
proof -
  have "shard_names key @ [sanitize key] \<noteq> []" by simp
  then have "join_sep (b # shard_names key @ [sanitize key])
      = b @ CHR ''/'' # join_sep (shard_names key @ [sanitize key])"
    by (rule join_sep_Cons)
  also have "\<dots> = spec_path b key"
    using shard_names_ne [of key] by (simp add: spec_path_eq join_sep_append)
  finally show ?thesis
    using assms by (simp add: keyPath_def path_join_def)
qed

text \<open>
  Claim C9, amended. The path is what \<open>filepath.Clean\<close> makes of the base, the four hex
  names of the checksum's bytes and the sanitized key, each after one separator. For
  every base and every key other than the empty key, \<open>.\<close> and \<open>..\<close>, this is the cleaned
  base followed by the four hex names and the sanitized key, each after one separator
  (a base cleaned to \<open>/\<close> brings the first separator itself, a base cleaned to \<open>.\<close>
  vanishes). A successful \<open>Set\<close> on a path that held no file, or one no longer than the
  new entry, leaves there the expiry's Unix seconds in eight little-endian bytes followed
  by the payload.
\<close>

theorem on_disk_layout:
  "(path c \<noteq> [] \<longrightarrow> keyPath (path c) key = clean (spec_path (path c) key))
   \<and> (key \<noteq> [] \<and> key \<noteq> ''.'' \<and> key \<noteq> ''..'' \<longrightarrow>
        keyPath (path c) key =
          (if clean (path c) = ''/'' then ''/'' @ spec_rel key
           else if clean (path c) = ''.'' then spec_rel key
           else spec_path (clean (path c)) key))
   \<and> (Set c now key val ttl d = (Stored, d')
        \<and> length (old_content d (keyPath (path c) key)) \<le> 8 + length val \<longrightarrow>
        map_option content (files d' (keyPath (path c) key))
          = Some (spec_entry ((sint now + sint ttl) div 1000000000) val))"
proof -
  have "keyPath (path c) key =
          (if clean (path c) = ''/'' then ''/'' @ spec_rel key
           else if clean (path c) = ''.'' then spec_rel key
           else spec_path (clean (path c)) key)"
    if "key \<noteq> []" "key \<noteq> ''.''" "key \<noteq> ''..''"
    by (simp add: keyPath_child [OF that] shard_dir_cases spec_rel_eq spec_path_eq)
  moreover have "map_option content (files d' (keyPath (path c) key))
          = Some (spec_entry ((sint now + sint ttl) div 1000000000) val)"
    if s: "Set c now key val ttl d = (Stored, d')"
      and l: "length (old_content d (keyPath (path c) key)) \<le> 8 + length val"
  proof -
    have "write_at0 (put_uint64 (timestamp now ttl) @ val) (old_content d (keyPath (path c) key))
        = put_uint64 (timestamp now ttl) @ val"
      using l by (simp add: write_at0_def length_put_uint64)
    then have "map_option content (files d' (keyPath (path c) key))
        = Some (put_uint64 (timestamp now ttl) @ val)"
      using Set_StoredD(1) [OF s] by auto
    then show ?thesis
      by (simp add: timestamp_def put_uint64_spec spec_entry_def)
  qed
  ultimately show ?thesis
    using keyPath_clean_spec_path [of "path c" key] by blast
qed

theorem on_disk_layout_witness:
  "keyPath (path cache_slash) ''a:b'' = clean (spec_path (path cache_slash) ''a:b'')
   \<and> keyPath (path cache_slash) ''a:b'' = spec_path ''/c'' ''a:b''
   \<and> map_option content (files (snd (Set cache_slash 1000000000 ''a:b'' [9] 5000000000 disk0))
          (keyPath (path cache_slash) ''a:b''))
        = Some (spec_entry ((sint (1000000000 :: time_ns) + sint (5000000000 :: duration)) div 1000000000) [9])"
proof -
  have "fst (Set cache_slash 1000000000 ''a:b'' [9] 5000000000 disk0) = Stored"
    by code_simp
  then have s: "Set cache_slash 1000000000 ''a:b'' [9] 5000000000 disk0
      = (Stored, snd (Set cache_slash 1000000000 ''a:b'' [9] 5000000000 disk0))"
    by (simp add: prod_eq_iff)
  have o: "length (old_content disk0 (keyPath (path cache_slash) ''a:b'')) \<le> 8 + length [9 :: byte]"
    by code_simp
  have b: "path cache_slash \<noteq> []" "clean (path cache_slash) = ''/c''"
    by code_simp+
  have k: "''a:b'' \<noteq> []" "''a:b'' \<noteq> ''.''" "''a:b'' \<noteq> ''..''"
    by simp_all
  note layout = on_disk_layout [of cache_slash "''a:b''" 1000000000 "[9]" 5000000000 disk0
        "snd (Set cache_slash 1000000000 ''a:b'' [9] 5000000000 disk0)"]
  have p1: "keyPath (path cache_slash) ''a:b'' = clean (spec_path (path cache_slash) ''a:b'')"
    using layout b(1) by blast
  have "keyPath (path cache_slash) ''a:b'' =
          (if clean (path cache_slash) = ''/'' then ''/'' @ spec_rel ''a:b''
           else if clean (path cache_slash) = ''.'' then spec_rel ''a:b''
           else spec_path (clean (path cache_slash)) ''a:b'')"
    using layout k by blast
  then have p2: "keyPath (path cache_slash) ''a:b'' = spec_path ''/c'' ''a:b''"
    unfolding b(2) by simp
  have p3: "map_option content (files (snd (Set cache_slash 1000000000 ''a:b'' [9] 5000000000 disk0))
          (keyPath (path cache_slash) ''a:b''))
        = Some (spec_entry ((sint (1000000000 :: time_ns) + sint (5000000000 :: duration)) div 1000000000) [9])"
    using layout s o by blast
  show ?thesis
    using p1 p2 p3 by blast
qed

text \<open>For the key \<open>.\<close> the path is the shard directory, without the sanitized key behind it.\<close>

theorem layout_dot_key_counterexample:
  "keyPath ''/cache'' ''.'' = ''/cache/42/e2/d4/0e''
   \<and> spec_path ''/cache'' ''.'' = ''/cache/42/e2/d4/0e/.''"
  by code_simp

section \<open>The invariant of the lock registry\<close>

lemma registry_invI:
  assumes "\<And>a. a < length (handles m) \<Longrightarrow> registered m a \<longleftrightarrow> 0 < ref (handles m ! a)"
    and "\<And>p a. lock m p = Some a \<Longrightarrow> a < length (handles m) \<and> cpath (handles m ! a) = p"
  shows "registry_inv m"
  using assms unfolding registry_inv_def by blast

lemma registry_inv_ref:
  "registry_inv m \<Longrightarrow> a < length (handles m) \<Longrightarrow> registered m a \<longleftrightarrow> 0 < ref (handles m ! a)"
  by (simp add: registry_inv_def)

lemma registry_inv_lock:
  "registry_inv m \<Longrightarrow> lock m p = Some a \<Longrightarrow> a < length (handles m) \<and> cpath (handles m ! a) = p"
  by (simp add: registry_inv_def)

lemma registry_inv_new: "registry_inv new_pathMutex"
  by (simp add: registry_inv_def new_pathMutex_def registered_def)

lemma field_list_update:
  "f x = f (hs ! a) \<Longrightarrow> f (hs[a := x] ! b) = f (hs ! b)"
  by (cases "a < length hs"; cases "a = b"; simp add: list_update_beyond not_less)

lemma registry_inv_MutexAt:
  assumes "registry_inv m"
  shows "registry_inv (snd (MutexAt p m))"
proof (cases "lock m p")
  case None
  let ?n = "length (handles m)"
  let ?new = "\<lparr>ref = 1, cpath = p, writer = False, readers = 0\<rparr>"
  have l: "lock (snd (MutexAt p m)) = (lock m)(p \<mapsto> ?n)"
    and h: "handles (snd (MutexAt p m)) = handles m @ [?new]"
    using None by (simp_all add: MutexAt_def)
  show ?thesis
  proof (rule registry_invI)
    fix a assume "a < length (handles (snd (MutexAt p m)))"
    then consider "a = ?n" | "a < ?n" unfolding h by fastforce
    then show "registered (snd (MutexAt p m)) a \<longleftrightarrow> 0 < ref (handles (snd (MutexAt p m)) ! a)"
    proof cases
      case 1
      then have "registered (snd (MutexAt p m)) a"
        unfolding registered_def l by auto
      then show ?thesis using 1 by (simp add: h)
    next
      case 2
      have "registered (snd (MutexAt p m)) a \<longleftrightarrow> registered m a"
        unfolding registered_def l using 2 None
        by (auto split: if_splits) (metis None option.distinct(1))
      then show ?thesis
        using 2 registry_inv_ref [OF assms 2] by (simp add: h nth_append)
    qed
  next
    fix q a assume "lock (snd (MutexAt p m)) q = Some a"
    then consider "q = p" "a = ?n" | "q \<noteq> p" "lock m q = Some a"
      unfolding l by (auto split: if_splits)
    then show "a < length (handles (snd (MutexAt p m))) \<and> cpath (handles (snd (MutexAt p m)) ! a) = q"
    proof cases
      case 1
      then show ?thesis by (simp add: h)
    next
      case 2
      then show ?thesis
        using registry_inv_lock [OF assms 2(2)] by (simp add: h nth_append)
    qed
  qed
next
  case (Some a)
  let ?x = "(handles m ! a)\<lparr>ref := ref (handles m ! a) + 1\<rparr>"
  have a: "a < length (handles m)" "cpath (handles m ! a) = p"
    using registry_inv_lock [OF assms Some] by simp_all
  have l: "lock (snd (MutexAt p m)) = lock m"
    and h: "handles (snd (MutexAt p m)) = (handles m)[a := ?x]"
    using Some by (simp_all add: MutexAt_def)
  have "registered m a" using Some by (auto simp: registered_def)
  then have pos: "0 < ref (handles m ! a)" using registry_inv_ref [OF assms a(1)] by simp
  show ?thesis
  proof (rule registry_invI)
    fix b assume "b < length (handles (snd (MutexAt p m)))"
    then have b: "b < length (handles m)" by (simp add: h)
    have "registered (snd (MutexAt p m)) b \<longleftrightarrow> registered m b"
      by (simp add: registered_def l)
    then show "registered (snd (MutexAt p m)) b \<longleftrightarrow> 0 < ref (handles (snd (MutexAt p m)) ! b)"
      using registry_inv_ref [OF assms b] pos a(1) by (cases "b = a") (simp_all add: h)
  next
    fix q b assume "lock (snd (MutexAt p m)) q = Some b"
    then have "lock m q = Some b" by (simp add: l)
    then show "b < length (handles (snd (MutexAt p m))) \<and> cpath (handles (snd (MutexAt p m)) ! b) = q"
      using registry_inv_lock [OF assms] by (simp add: h field_list_update)
  qed
qed

lemma registry_inv_set_rw: "registry_inv m \<Longrightarrow> registry_inv (set_rw a w r m)"
  by (simp add: registry_inv_def set_rw_def registered_def field_list_update)

lemma registry_inv_cleanup:
  assumes "registry_inv m" "a < length (handles m)"
  shows "registry_inv (cleanup a m)"
proof (cases "ref (handles m ! a) = 1")
  case True
  then have "registered m a" using registry_inv_ref [OF assms] by simp
  then obtain p where p: "lock m p = Some a" by (auto simp: registered_def)
  then have cp: "cpath (handles m ! a) = p" using registry_inv_lock [OF assms(1)] by simp
  have l: "lock (cleanup a m) = (lock m)(p := None)"
    and h: "handles (cleanup a m) = (handles m)[a := (handles m ! a)\<lparr>ref := 0\<rparr>]"
    using True cp assms(2) by (simp_all add: cleanup_def Let_def)
  have r: "registered (cleanup a m) b \<longleftrightarrow> b \<noteq> a \<and> registered m b" for b
  proof
    assume "registered (cleanup a m) b"
    then obtain q where q: "q \<noteq> p" "lock m q = Some b"
      unfolding registered_def l by (auto split: if_splits)
    then have "cpath (handles m ! b) = q" using registry_inv_lock [OF assms(1)] by simp
    then have "b \<noteq> a" using cp q(1) by auto
    then show "b \<noteq> a \<and> registered m b" using q(2) by (auto simp: registered_def)
  next
    assume "b \<noteq> a \<and> registered m b"
    then obtain q where q: "lock m q = Some b" "b \<noteq> a" by (auto simp: registered_def)
    then have "q \<noteq> p" using p by auto
    then show "registered (cleanup a m) b"
      unfolding registered_def l using q(1) by auto
  qed
  show ?thesis
  proof (rule registry_invI)
    fix b assume "b < length (handles (cleanup a m))"
    then have b: "b < length (handles m)" by (simp add: h)
    show "registered (cleanup a m) b \<longleftrightarrow> 0 < ref (handles (cleanup a m) ! b)"
      using registry_inv_ref [OF assms(1) b] assms(2) by (cases "b = a") (simp_all add: r h)
  next
    fix q b assume "lock (cleanup a m) q = Some b"
    then have "lock m q = Some b" by (auto simp: l split: if_splits)
    then show "b < length (handles (cleanup a m)) \<and> cpath (handles (cleanup a m) ! b) = q"
      using registry_inv_lock [OF assms(1)] by (simp add: h field_list_update)
  qed
next
  case False
  let ?x = "(handles m ! a)\<lparr>ref := ref (handles m ! a) - 1\<rparr>"
  have l: "lock (cleanup a m) = lock m"
    and h: "handles (cleanup a m) = (handles m)[a := ?x]"
    using False assms(2) by (simp_all add: cleanup_def Let_def)
  show ?thesis
  proof (rule registry_invI)
    fix b assume "b < length (handles (cleanup a m))"
    then have b: "b < length (handles m)" by (simp add: h)
    have "registered (cleanup a m) b \<longleftrightarrow> registered m b"
      by (simp add: registered_def l)
    then show "registered (cleanup a m) b \<longleftrightarrow> 0 < ref (handles (cleanup a m) ! b)"
      using registry_inv_ref [OF assms(1) b] False assms(2)
      by (cases "b = a") (auto simp: h)
  next
    fix q b assume "lock (cleanup a m) q = Some b"
    then have "lock m q = Some b" by (simp add: l)
    then show "b < length (handles (cleanup a m)) \<and> cpath (handles (cleanup a m) ! b) = q"
      using registry_inv_lock [OF assms(1)] by (simp add: h field_list_update)
  qed
qed

lemma length_set_rw [simp]: "length (handles (set_rw a w r m)) = length (handles m)"
  by (simp add: set_rw_def)

lemma registry_inv_step:
  assumes "registry_inv m" "step act m = Some m'"
  shows "registry_inv m'"
  using assms
  by (cases act)
    (auto simp: step_def registry_inv_MutexAt registry_inv_set_rw registry_inv_cleanup
      split: if_splits)

lemma registry_inv_run:
  "registry_inv m \<Longrightarrow> run acts m = Some m' \<Longrightarrow> registry_inv m'"
  by (induction acts arbitrary: m) (auto split: option.splits dest: registry_inv_step)

section \<open>Reference counts along a run\<close>

lemma ref_of_set_rw [simp]: "ref_of (set_rw b w r m) a = ref_of m a"
  by (simp add: ref_of_def set_rw_def field_list_update)

lemma ref_of_cleanup:
  "b < length (handles m) \<Longrightarrow> ref_of (cleanup b m) a = ref_of m a - (if a = b then 1 else 0)"
  by (simp add: ref_of_def cleanup_def Let_def nth_list_update)

lemma ref_of_MutexAt:
  assumes "registry_inv m"
  shows "ref_of (snd (MutexAt p m)) a = ref_of m a + (if a = fst (MutexAt p m) then 1 else 0)"
proof (cases "lock m p")
  case None
  then show ?thesis
    by (simp add: ref_of_def MutexAt_def nth_append)
next
  case (Some b)
  then have "b < length (handles m)"
    using registry_inv_lock [OF assms] by simp
  then show ?thesis
    using Some by (simp add: ref_of_def MutexAt_def nth_list_update)
qed

lemma ref_of_step:
  assumes "registry_inv m" "step act m = Some m'"
  shows "ref_of m' a =
    ref_of m a + int (count_list (acquired_by act m) a) - int (count_list (released_by act) a)"
proof (cases act)
  case (AMutexAt p)
  then show ?thesis
    using assms by (auto simp: step_def acquired_by_def released_by_def ref_of_MutexAt)
next
  case (ALock b)
  then show ?thesis
    using assms by (auto simp: step_def acquired_by_def released_by_def split: if_splits)
next
  case (AUnlock b)
  then show ?thesis
    using assms
    by (auto simp: step_def acquired_by_def released_by_def ref_of_cleanup split: if_splits)
next
  case (ARLock b)
  then show ?thesis
    using assms by (auto simp: step_def acquired_by_def released_by_def split: if_splits)
next
  case (ARUnlock b)
  then show ?thesis
    using assms
    by (auto simp: step_def acquired_by_def released_by_def ref_of_cleanup split: if_splits)
qed

lemma ref_of_run:
  "registry_inv m \<Longrightarrow> run acts m = Some m' \<Longrightarrow>
   ref_of m' a = ref_of m a + int (count_list (returned acts m) a) - int (count_list (released acts) a)"
proof (induction acts arbitrary: m)
  case Nil
  then show ?case by (simp add: released_def)
next
  case (Cons act acts)
  then obtain m1 where s: "step act m = Some m1" and r: "run acts m1 = Some m'"
    by (auto split: option.splits)
  have i: "registry_inv m1" using registry_inv_step [OF Cons.prems(1) s] .
  show ?case
    using Cons.IH [OF i r] ref_of_step [OF Cons.prems(1) s, of a] s
    by (simp add: released_def)
qed

text \<open>
  Claim C8. From the empty registry, after every sequence of steps that the callers can
  take, a handle is registered exactly when its reference count is positive, and under
  the path it was made for; a registered handle has been handed out more often than it
  has been released, so once every handle has been released as often as it was handed
  out, the registry is empty.
\<close>

theorem registry_invariant:
  assumes "run acts new_pathMutex = Some m"
  shows "registry_inv m
    \<and> (\<forall>p a. lock m p = Some a \<longrightarrow>
          count_list (released acts) a < count_list (returned acts new_pathMutex) a)
    \<and> ((\<forall>a. count_list (returned acts new_pathMutex) a = count_list (released acts) a)
          \<longrightarrow> (\<forall>p. lock m p = None))"
proof -
  have i: "registry_inv m"
    using registry_inv_run [OF registry_inv_new assms] .
  have c: "count_list (released acts) a < count_list (returned acts new_pathMutex) a"
    if "lock m p = Some a" for p a
  proof -
    have a: "a < length (handles m)" using registry_inv_lock [OF i that] by simp
    have "registered m a" using that by (auto simp: registered_def)
    then have "0 < ref_of m a" using registry_inv_ref [OF i a] a by (simp add: ref_of_def)
    moreover have "ref_of new_pathMutex a = 0" by (simp add: ref_of_def new_pathMutex_def)
    ultimately show ?thesis
      using ref_of_run [OF registry_inv_new assms, of a] by simp
  qed
  have "lock m p = None" if "\<forall>a. count_list (returned acts new_pathMutex) a = count_list (released acts) a" for p
  proof (cases "lock m p")
    case None
    then show ?thesis .
  next
    case (Some a)
    then show ?thesis using c [OF Some] that by simp
  qed
  then show ?thesis using i c by blast
qed

theorem registry_invariant_witness:
  "registry_inv (the (run [AMutexAt ''p'', AMutexAt ''p'', ARLock 0, ARLock 0, ARUnlock 0, ARUnlock 0] new_pathMutex))
   \<and> (\<forall>p. lock (the (run [AMutexAt ''p'', AMutexAt ''p'', ARLock 0, ARLock 0, ARUnlock 0, ARUnlock 0] new_pathMutex)) p = None)"
proof -
  let ?acts = "[AMutexAt ''p'', AMutexAt ''p'', ARLock 0, ARLock 0, ARUnlock 0, ARUnlock 0]"
  have "run ?acts new_pathMutex \<noteq> None"
    by code_simp
  then have r: "run ?acts new_pathMutex = Some (the (run ?acts new_pathMutex))"
    by simp
  have "returned ?acts new_pathMutex = [0, 0]"
    by code_simp
  moreover have "released ?acts = [0, 0]"
    by (simp add: released_def released_by_def)
  ultimately have b: "\<forall>a. count_list (returned ?acts new_pathMutex) a = count_list (released ?acts) a"
    by simp
  show ?thesis
    using registry_invariant [OF r] b by blast
qed

end
